theory Spec2Isabelle
  imports Complex_Main "HOL-Library.Multiset"
begin

section \<open>Data model of \<open>cam/sgnmt/blocks/pruning.py\<close>\<close>

text \<open>
  Exceptions of the Python code are values: every function that can raise returns
  \<open>py_error + 'a\<close>, with \<open>Inl\<close> for the exception. A raised exception ends the model's
  run (the partially mutated state is not returned).
\<close>

datatype py_error =
    TypeError | AttributeError | ZeroDivisionError | IndexError | KeyError
  | ValueError | UnboundLocalError | NameError

text \<open>
  A numpy array of the weight store is a vector or a matrix (a list of rows of equal
  length). Arrays of three or more axes are not modelled. Entries are \<open>float\<close>s in the
  source and reals here. The operations performed on weights (storing \<open>0.0\<close>,
  absolute value, maximum, comparison) are exact on floats. The accumulated distances
  and activities are reals as well, an idealisation of their float arithmetic; the
  theorems about \<open>prune\<close> hold for all accumulated values and for every order in which
  the candidates may be sorted, so they do not rest on it.
\<close>

datatype ndarray = Vec "real list" | Mat "real list list"

fun ncols :: "'a list list \<Rightarrow> nat" where
  "ncols [] = 0"
| "ncols (r # rs) = length r"

fun shape :: "ndarray \<Rightarrow> nat list" where
  "shape (Vec v) = [length v]"
| "shape (Mat rows) = [length rows, ncols rows]"

text \<open>\<open>mat.shape[d]\<close>: a tuple index, negative indices counting from the end.\<close>

definition shape_at :: "ndarray \<Rightarrow> int \<Rightarrow> py_error + nat" where
  "shape_at mat d =
     (let n = int (length (shape mat)); k = (if d < 0 then n + d else d)
      in if 0 \<le> k \<and> k < n then Inr (shape mat ! nat k) else Inl IndexError)"

text \<open>\<open>class Connection\<close>.\<close>

record connection =
  direction :: string
  mat_name :: string
  dim :: int
  start_idx :: real

text \<open>
  \<open>class PrunableLayer\<close>. The fields \<open>name\<close>, \<open>theano_variable\<close> and \<open>store_obs\<close>
  (always \<open>True\<close> after the constructor) are left out; \<open>step_size\<close> is an attribute
  that exists only after \<open>derive_step_size\<close> has run. The field \<open>mask\<close> is
  written \<open>mask_mat\<close>, since \<open>mask\<close> is a constant of the HOL library.
\<close>

record layer =
  dists :: "real list list option"
  activities :: "real list option"
  mask_mat :: "real list list option"
  n_obs :: real
  trg_size :: int
  n_steps :: int
  step_size :: "int option"
  connections :: "connection list"
  pruned_neurons :: "nat list"
  obs :: "real list list list"
  maxout :: bool

text \<open>The weight store \<open>params_dict\<close>: matrix name to the value of its shared variable.\<close>

type_synonym params = "string \<rightharpoonup> ndarray"

definition INF_DIST :: real where
  "INF_DIST = 10000"

text \<open>\<open>PrunableLayer.__init__\<close>.\<close>

definition new_layer :: "int \<Rightarrow> int \<Rightarrow> bool \<Rightarrow> layer" where
  "new_layer trg n mx =
     \<lparr>dists = None, activities = None, mask_mat = None, n_obs = 0, trg_size = trg,
      n_steps = n, step_size = None, connections = [], pruned_neurons = [], obs = [],
      maxout = mx\<rparr>"

text \<open>\<open>PrunableLayer.reset\<close>.\<close>

definition reset :: "layer \<Rightarrow> layer" where
  "reset l = l\<lparr>dists := None, activities := None, n_obs := 0, obs := []\<rparr>"

text \<open>\<open>np.triu\<close>: entries below the diagonal become zero.\<close>

definition triu :: "real list list \<Rightarrow> real list list" where
  "triu m = map (\<lambda>(i, row). map (\<lambda>(j, v). if i \<le> j then v else 0) (zip [0..<length row] row))
              (zip [0..<length m] m)"

text \<open>
  \<open>PrunableLayer.initialize_mask\<close>. With \<open>dists\<close> still \<open>None\<close>, \<open>np.triu\<close> fails on
  the zero-dimensional array.
\<close>

definition initialize_mask :: "layer \<Rightarrow> py_error + layer" where
  "initialize_mask l =
     (case dists l of
        None \<Rightarrow> Inl TypeError
      | Some d \<Rightarrow> Inr (l\<lparr>mask_mat := Some (triu (map (map (\<lambda>_. INF_DIST * 1)) d))\<rparr>))"

text \<open>\<open>PrunableLayer.get_size\<close>: \<open>self.mask.shape[0]\<close>.\<close>

definition get_size :: "layer \<Rightarrow> py_error + int" where
  "get_size l = (case mask_mat l of None \<Rightarrow> Inl AttributeError | Some m \<Rightarrow> Inr (int (length m)))"

text \<open>
  \<open>PrunableLayer.derive_step_size\<close>: \<open>int((get_size() - trg_size) / n_steps)\<close>, plus
  one. On integers \<open>/\<close> is Python 2's floor division (the code base is Python 2); for a
  non-negative numerator and a positive divisor Python 3's \<open>int(a / b)\<close> is the same
  number.
\<close>

definition derive_step_size :: "layer \<Rightarrow> py_error + layer" where
  "derive_step_size l =
     (case get_size l of
        Inl e \<Rightarrow> Inl e
      | Inr sz \<Rightarrow>
          if n_steps l = 0 then Inl ZeroDivisionError
          else Inr (l\<lparr>step_size := Some ((sz - trg_size l) div n_steps l + 1)\<rparr>))"

text \<open>\<open>PrunableLayer.count_unpruned_neurons\<close>.\<close>

definition count_unpruned_neurons :: "layer \<Rightarrow> py_error + int" where
  "count_unpruned_neurons l =
     (case get_size l of
        Inl e \<Rightarrow> Inl e
      | Inr sz \<Rightarrow> Inr (sz - int (length (pruned_neurons l))))"

text \<open>The first two statements of \<open>PrunableLayer.prune\<close>: the lazy initialisation.\<close>

definition prune_init :: "layer \<Rightarrow> py_error + layer" where
  "prune_init l =
     (if mask_mat l = None then
        (case initialize_mask l of Inl e \<Rightarrow> Inl e | Inr l' \<Rightarrow> derive_step_size l')
      else Inr l)"

section \<open>Accumulating activities\<close>

text \<open>
  \<open>x = activity.reshape((-1, activity.shape[-1])).transpose()\<close>. The batch is given as
  the reshaped two-dimensional array, one row per observation; \<open>x\<close> has one row per
  neuron. (A batch without any observation loses its width in this representation.)
\<close>

definition transpose_np :: "real list list \<Rightarrow> real list list" where
  "transpose_np m = map (\<lambda>k. map (\<lambda>r. r ! k) m) [0..<ncols m]"

definition dot :: "real list \<Rightarrow> real list \<Rightarrow> real" where
  "dot u v = sum_list (map (\<lambda>(a, b). a * b) (zip u v))"

definition sq_norm :: "real list \<Rightarrow> real" where
  "sq_norm r = sum_list (map (\<lambda>v. v ^ 2) r)"

text \<open>
  \<open>dists_sq = np.dot(x, x.T); dists_sq *= -2; dists_sq += pt_sq_norms.reshape(-1, 1);
  dists_sq += pt_sq_norms\<close>, in this order of operations.
\<close>

definition dists_sq_of :: "real list list \<Rightarrow> real list list" where
  "dists_sq_of x =
     map (\<lambda>ri. map (\<lambda>rj. dot ri rj * (- 2) + sq_norm ri + sq_norm rj) x) x"

definition same_shape :: "'a list list \<Rightarrow> 'b list list \<Rightarrow> bool" where
  "same_shape a b = (map length a = map length b)"

definition mat_add :: "real list list \<Rightarrow> real list list \<Rightarrow> real list list" where
  "mat_add a b = map (\<lambda>(r, s). map (\<lambda>(u, v). u + v) (zip r s)) (zip a b)"

definition vec_add :: "real list \<Rightarrow> real list \<Rightarrow> real list" where
  "vec_add a b = map (\<lambda>(u, v). u + v) (zip a b)"

text \<open>
  \<open>PrunableLayer.register_activities\<close>. The in-place \<open>+=\<close> of arrays of different
  shapes raises \<open>ValueError\<close> (numpy's broadcasting of a one-neuron batch into a larger
  accumulator is not modelled).
\<close>

definition register_activities :: "real list list \<Rightarrow> layer \<Rightarrow> py_error + layer" where
  "register_activities activity l =
     (let x = transpose_np activity;
          l1 = l\<lparr>obs := obs l @ [x]\<rparr>;
          dists_sq = dists_sq_of x;
          activities_sq = map sq_norm x
      in case dists l1 of
           None \<Rightarrow>
             Inr (l1\<lparr>dists := Some dists_sq, activities := Some activities_sq,
                     n_obs := n_obs l1 + real (length activity)\<rparr>)
         | Some d \<Rightarrow>
             if \<not> same_shape d dists_sq then Inl ValueError
             else (case activities l1 of
                     None \<Rightarrow> Inl TypeError
                   | Some a \<Rightarrow>
                       if length a \<noteq> length activities_sq then Inl ValueError
                       else Inr (l1\<lparr>dists := Some (mat_add d dists_sq),
                                   activities := Some (vec_add a activities_sq),
                                   n_obs := n_obs l1 + real (length activity)\<rparr>)))"

section \<open>Compensation: the sum strategy\<close>

text \<open>
  \<open>set_zero_in_mat\<close>. The indices the callers pass are never negative; an index past
  the end of the axis raises \<open>IndexError\<close>. On a matrix an axis other than 0 and 1
  falls through both \<open>elif\<close>s and leaves the matrix as it is.
\<close>

fun set_zero_in_mat :: "ndarray \<Rightarrow> int \<Rightarrow> nat \<Rightarrow> py_error + ndarray" where
  "set_zero_in_mat (Vec v) d idx =
     (if idx < length v then Inr (Vec (v[idx := 0])) else Inl IndexError)"
| "set_zero_in_mat (Mat rows) d idx =
     (if d = 0 then
        (if idx < length rows then Inr (Mat (rows[idx := map (\<lambda>_. 0) (rows ! idx)]))
         else Inl IndexError)
      else if d = 1 then
        (if idx < ncols rows then Inr (Mat (map (\<lambda>r. r[idx := 0]) rows))
         else Inl IndexError)
      else Inr (Mat rows))"

text \<open>
  The offset of a connection in its matrix: \<open>int(mat.shape[conn.dim] * conn.start_idx)\<close>
  when \<open>conn.start_idx > 0.0\<close>, no offset otherwise. The product is taken in exact
  arithmetic.
\<close>

definition conn_offset :: "connection \<Rightarrow> ndarray \<Rightarrow> py_error + nat" where
  "conn_offset conn mat =
     (if start_idx conn > 0 then
        (case shape_at mat (dim conn) of
           Inl e \<Rightarrow> Inl e
         | Inr n \<Rightarrow> Inr (nat \<lfloor>real n * start_idx conn\<rfloor>))
      else Inr 0)"

text \<open>The body of the inner loop of \<open>_compensate_for_pruning_sum\<close>, for one connection.\<close>

definition compensate_conn :: "bool \<Rightarrow> nat \<Rightarrow> connection \<Rightarrow> params \<Rightarrow> py_error + params" where
  "compensate_conn mx j conn ps =
     (case ps (mat_name conn) of
        None \<Rightarrow> Inl KeyError
      | Some mat \<Rightarrow>
          (case conn_offset conn mat of
             Inl e \<Rightarrow> Inl e
           | Inr offset \<Rightarrow>
               let mat_j = j + offset in
               (case (if direction conn = ''in'' \<and> mx then
                        (case set_zero_in_mat mat (dim conn) (mat_j * 2) of
                           Inl e \<Rightarrow> Inl e
                         | Inr m \<Rightarrow> set_zero_in_mat m (dim conn) (mat_j * 2 + 1))
                      else set_zero_in_mat mat (dim conn) mat_j) of
                  Inl e \<Rightarrow> Inl e
                | Inr m \<Rightarrow> Inr (ps(mat_name conn \<mapsto> m)))))"

text \<open>The inner loop \<open>for conn in layer.connections\<close>.\<close>

fun compensate_conns :: "bool \<Rightarrow> nat \<Rightarrow> connection list \<Rightarrow> params \<Rightarrow> py_error + params" where
  "compensate_conns mx j [] ps = Inr ps"
| "compensate_conns mx j (conn # conns) ps =
     (case compensate_conn mx j conn ps of
        Inl e \<Rightarrow> Inl e
      | Inr ps' \<Rightarrow> compensate_conns mx j conns ps')"

text \<open>\<open>_compensate_for_pruning_sum\<close>, the strategy bound to \<open>compensate_for_pruning\<close>.\<close>

fun compensate_for_pruning_sum ::
  "(nat \<times> nat) list \<Rightarrow> layer \<Rightarrow> params \<Rightarrow> py_error + params" where
  "compensate_for_pruning_sum [] l ps = Inr ps"
| "compensate_for_pruning_sum ((i, j) # to_delete) l ps =
     (case compensate_conns (maxout l) j (connections l) ps of
        Inl e \<Rightarrow> Inl e
      | Inr ps' \<Rightarrow> compensate_for_pruning_sum to_delete l ps')"

definition compensate_for_pruning ::
  "(nat \<times> nat) list \<Rightarrow> layer \<Rightarrow> params \<Rightarrow> py_error + params" where
  "compensate_for_pruning = compensate_for_pruning_sum"

section \<open>The sanity check\<close>

text \<open>\<open>np.max\<close> of an array without entries raises \<open>ValueError\<close>.\<close>

definition np_max :: "real list \<Rightarrow> py_error + real" where
  "np_max xs = (case xs of [] \<Rightarrow> Inl ValueError | y # ys \<Rightarrow> Inr (fold max ys y))"

text \<open>Indexing an axis with a list of indices: \<open>v[idxs]\<close>.\<close>

definition take_idxs :: "'a list \<Rightarrow> nat list \<Rightarrow> py_error + 'a list" where
  "take_idxs xs idxs =
     (if list_all (\<lambda>i. i < length xs) idxs then Inr (map (\<lambda>i. xs ! i) idxs)
      else Inl IndexError)"

text \<open>
  The \<open>if/elif/elif\<close> of \<open>sanity_check\<close> that assigns \<open>eps\<close>: the entries selected by
  \<open>mat[mat_idxs]\<close>, \<open>mat[mat_idxs,:]\<close> or \<open>mat[:,mat_idxs]\<close>. No branch is taken for a
  matrix and an axis other than 0 and 1 (the result is \<open>None\<close>: \<open>eps\<close> is not
  assigned).
\<close>

fun selected_entries :: "ndarray \<Rightarrow> int \<Rightarrow> nat list \<Rightarrow> (py_error + real list) option" where
  "selected_entries (Vec v) d idxs = Some (take_idxs v idxs)"
| "selected_entries (Mat rows) d idxs =
     (if d = 0 then
        Some (case take_idxs rows idxs of Inl e \<Rightarrow> Inl e | Inr rs \<Rightarrow> Inr (concat rs))
      else if d = 1 then
        Some (if list_all (\<lambda>i. i < ncols rows) idxs
              then Inr (concat (map (\<lambda>r. map (\<lambda>i. r ! i) idxs) rows))
              else Inl IndexError)
      else None)"

text \<open>
  The loop of \<open>sanity_check\<close>. The variable \<open>eps\<close> lives across the iterations: it is
  unbound (\<open>None\<close>) before the first assignment, and keeps the value of the previous
  connection when no branch assigns it.
\<close>

fun sanity_conns ::
  "nat list \<Rightarrow> params \<Rightarrow> connection list \<Rightarrow> real option \<Rightarrow> real \<Rightarrow> py_error + real" where
  "sanity_conns pruned ps [] eps geps = Inr geps"
| "sanity_conns pruned ps (conn # conns) eps geps =
     (case ps (mat_name conn) of
        None \<Rightarrow> Inl KeyError
      | Some mat \<Rightarrow>
          (case conn_offset conn mat of
             Inl e \<Rightarrow> Inl e
           | Inr offset \<Rightarrow>
               let mat_idxs = map (\<lambda>idx. idx + offset) pruned in
               (case (case selected_entries mat (dim conn) mat_idxs of
                        None \<Rightarrow> Inr eps
                      | Some (Inl e) \<Rightarrow> Inl e
                      | Some (Inr vs) \<Rightarrow>
                          (case np_max (map abs vs) of Inl e \<Rightarrow> Inl e | Inr v \<Rightarrow> Inr (Some v))) of
                  Inl e \<Rightarrow> Inl e
                | Inr None \<Rightarrow> Inl UnboundLocalError
                | Inr (Some v) \<Rightarrow> sanity_conns pruned ps conns (Some v) (max v geps))))"

text \<open>
  \<open>PrunableLayer.sanity_check\<close>; the result is the value \<open>geps\<close> that the method
  reports through \<open>logging.info\<close>.
\<close>

definition sanity_check :: "layer \<Rightarrow> params \<Rightarrow> py_error + real" where
  "sanity_check l ps = sanity_conns (pruned_neurons l) ps (connections l) None 0"

section \<open>Pruning\<close>

text \<open>\<open>_get_activity_discounts_min\<close>, the function bound to \<open>get_activity_discounts\<close>.\<close>

definition get_activity_discounts :: "real list \<Rightarrow> real list list" where
  "get_activity_discounts a = map (\<lambda>u. map (\<lambda>v. min u v) a) a"

definition np_multiply :: "real list list \<Rightarrow> real list list \<Rightarrow> real list list" where
  "np_multiply a b = map (\<lambda>(r, s). map (\<lambda>(u, v). u * v) (zip r s)) (zip a b)"

text \<open>\<open>search_mat = np.multiply(self.dists, activity_discounts) + self.mask\<close>.\<close>

definition search_mat_of :: "real list \<Rightarrow> real list list \<Rightarrow> real list list \<Rightarrow> real list list" where
  "search_mat_of a d m = mat_add (np_multiply d (get_activity_discounts a)) m"

definition is_square :: "nat \<Rightarrow> 'a list list \<Rightarrow> bool" where
  "is_square n m = (length m = n \<and> list_all (\<lambda>r. length r = n) m)"

text \<open>\<open>np.unravel_index\<close> of a flat index into an \<open>n\<close> by \<open>n\<close> matrix.\<close>

definition unravel_index :: "nat \<Rightarrow> nat \<Rightarrow> nat \<times> nat" where
  "unravel_index n k = (k div n, k mod n)"

text \<open>\<open>self.mask[j,:] = INF_DIST; self.mask[:,j] = INF_DIST\<close>.\<close>

definition mask_out :: "nat \<Rightarrow> real list list \<Rightarrow> real list list" where
  "mask_out j m =
     map (\<lambda>(i, row). if i = j then map (\<lambda>_. INF_DIST) row else row[j := INF_DIST])
       (zip [0..<length m] m)"

text \<open>
  The selection loop \<open>for i,j in zip(idxs[0], idxs[1])\<close> of \<open>prune\<close>: \<open>acts\<close> are the
  normalised activities, \<open>n_to_delete\<close> the bound of the \<open>break\<close>. The caller passes
  indices below the layer's size only, so \<open>acts ! i\<close> is a read in range.
\<close>

fun prune_scan ::
  "int \<Rightarrow> real list \<Rightarrow> (nat \<times> nat) list \<Rightarrow> (nat \<times> nat) list \<Rightarrow> layer
     \<Rightarrow> (nat \<times> nat) list \<times> layer" where
  "prune_scan n_to_delete acts [] to_delete l = (to_delete, l)"
| "prune_scan n_to_delete acts ((i, j) # rest) to_delete l =
     (if i \<in> set (pruned_neurons l) \<or> j \<in> set (pruned_neurons l)
      then prune_scan n_to_delete acts rest to_delete l
      else
        let (i', j') = (if acts ! i < acts ! j then (j, i) else (i, j));
            to_delete' = to_delete @ [(i', j')];
            l' = l\<lparr>pruned_neurons := pruned_neurons l @ [j'],
                   mask_mat := map_option (mask_out j') (mask_mat l)\<rparr>
        in if int (length to_delete') \<ge> n_to_delete then (to_delete', l')
           else prune_scan n_to_delete acts rest to_delete' l')"

text \<open>
  \<open>PrunableLayer.prune\<close> from the normalisation on (the call has not returned early).
  \<open>np.argsort(search_mat, None)\<close> is the parameter \<open>argsort\<close>: numpy's default sort is
  not stable, so the order of equal scores is the library's choice. Arrays of
  different shapes raise \<open>ValueError\<close> (broadcasting is not modelled); the last test
  is the read of the unbound \<open>max_score\<close> by the final log line when the loop has
  selected no pair. The log line itself is not modelled.
\<close>

definition prune_select ::
  "(real list \<Rightarrow> nat list) \<Rightarrow> int \<Rightarrow> layer \<Rightarrow> params \<Rightarrow> py_error + layer \<times> params" where
  "prune_select argsort n_to_delete l ps =
     (case activities l of
        None \<Rightarrow> Inl TypeError
      | Some a \<Rightarrow>
     (case dists l of
        None \<Rightarrow> Inl TypeError
      | Some d \<Rightarrow>
     (case mask_mat l of
        None \<Rightarrow> Inl AttributeError
      | Some m \<Rightarrow>
          let a' = map (\<lambda>v. v / n_obs l) a;
              d' = map (map (\<lambda>v. v / n_obs l)) d;
              l2 = l\<lparr>activities := Some a', dists := Some d'\<rparr>;
              n = length a'
          in if \<not> (is_square n d' \<and> is_square n m) then Inl ValueError
             else
               let search_mat = search_mat_of a' d' m;
                   idxs_flat = argsort (concat search_mat)
               in if \<not> list_all (\<lambda>k. k < n * n) idxs_flat then Inl ValueError
                  else
                    let idxs = map (unravel_index n) idxs_flat
                    in if idxs = [] then Inl IndexError
                       else
                         let (to_delete, l3) = prune_scan n_to_delete a' idxs [] l2
                         in (case compensate_for_pruning to_delete l3 ps of
                               Inl e \<Rightarrow> Inl e
                             | Inr ps' \<Rightarrow>
                                 if to_delete = [] then Inl UnboundLocalError
                                 else Inr (l3, ps')))))"

text \<open>\<open>n_to_delete\<close> as \<open>prune\<close> computes it, after the lazy initialisation.\<close>

definition n_to_delete_of :: "layer \<Rightarrow> py_error + int" where
  "n_to_delete_of l =
     (case count_unpruned_neurons l of
        Inl e \<Rightarrow> Inl e
      | Inr cnt \<Rightarrow>
          (case step_size l of
             None \<Rightarrow> Inl AttributeError
           | Some st \<Rightarrow> Inr (min (cnt - trg_size l) st)))"

text \<open>\<open>PrunableLayer.prune\<close>.\<close>

definition prune ::
  "(real list \<Rightarrow> nat list) \<Rightarrow> layer \<Rightarrow> params \<Rightarrow> py_error + layer \<times> params" where
  "prune argsort l ps =
     (case prune_init l of
        Inl e \<Rightarrow> Inl e
      | Inr l1 \<Rightarrow>
          (case n_to_delete_of l1 of
             Inl e \<Rightarrow> Inl e
           | Inr n_to_delete \<Rightarrow>
               if n_to_delete \<le> 0 then Inr (reset l1, ps)
               else prune_select argsort n_to_delete l1 ps))"

text \<open>
  What \<open>np.argsort\<close> guarantees whatever its sorting algorithm: the result lists every
  flat index exactly once, in an order of ascending values.
\<close>

definition is_argsort :: "(real list \<Rightarrow> nat list) \<Rightarrow> bool" where
  "is_argsort argsort =
     (\<forall>v. mset (argsort v) = mset [0..<length v] \<and> sorted (map (\<lambda>k. v ! k) (argsort v)))"

text \<open>One such function: a stable sort of the indices by their values.\<close>

definition stable_argsort :: "real list \<Rightarrow> nat list" where
  "stable_argsort v = sort_key (\<lambda>k. v ! k) [0..<length v]"

section \<open>Predicates of the specification\<close>

text \<open>
  The arrays of numpy are rectangular. A matrix of the weight store is \<open>proper\<close> when
  its rows have one length and it has at least one column.
\<close>

definition rectangular :: "'a list list \<Rightarrow> bool" where
  "rectangular rows = list_all (\<lambda>r. length r = ncols rows) rows"

fun proper :: "ndarray \<Rightarrow> bool" where
  "proper (Vec v) = True"
| "proper (Mat rows) = (rectangular rows \<and> 0 < ncols rows)"

text \<open>An axis that \<open>set_zero_in_mat\<close> and \<open>sanity_check\<close> act on.\<close>

fun valid_axis :: "ndarray \<Rightarrow> int \<Rightarrow> bool" where
  "valid_axis (Vec v) d = True"
| "valid_axis (Mat rows) d = (d = 0 \<or> d = 1)"

fun axis_len :: "ndarray \<Rightarrow> int \<Rightarrow> nat" where
  "axis_len (Vec v) d = length v"
| "axis_len (Mat rows) d = (if d = 0 then length rows else ncols rows)"

text \<open>
  The entries of an array at index \<open>idx\<close> of axis \<open>d\<close>: an element of a vector, a row
  (\<open>d = 0\<close>) or a column (\<open>d = 1\<close>) of a matrix.
\<close>

fun slice_of :: "ndarray \<Rightarrow> int \<Rightarrow> nat \<Rightarrow> real list" where
  "slice_of (Vec v) d idx = [v ! idx]"
| "slice_of (Mat rows) d idx = (if d = 0 then rows ! idx else map (\<lambda>r. r ! idx) rows)"

text \<open>The slice exists and is entirely zero.\<close>

definition slice_zero :: "ndarray \<Rightarrow> int \<Rightarrow> nat \<Rightarrow> bool" where
  "slice_zero mat d idx =
     (valid_axis mat d \<and> idx < axis_len mat d \<and> list_all (\<lambda>x. x = 0) (slice_of mat d idx))"

text \<open>
  The indices that the sum strategy zeroes for the deleted neuron \<open>j\<close> in a connection
  whose offset is \<open>offset\<close>: both sub-indices of \<open>mat_j\<close> for an inbound connection of a
  maxout layer, \<open>mat_j\<close> itself otherwise, where \<open>mat_j = j + offset\<close>.
\<close>

definition target_idxs :: "bool \<Rightarrow> connection \<Rightarrow> nat \<Rightarrow> nat \<Rightarrow> nat list" where
  "target_idxs mx conn j offset =
     (if direction conn = ''in'' \<and> mx then [(j + offset) * 2, (j + offset) * 2 + 1]
      else [j + offset])"

text \<open>
  All the slices at the indices \<open>idxs_of offset\<close> of the connection's matrix are zero
  (the matrix is in the store and the offset is defined).
\<close>

definition conn_zero :: "params \<Rightarrow> connection \<Rightarrow> (nat \<Rightarrow> nat list) \<Rightarrow> bool" where
  "conn_zero ps conn idxs_of =
     (case ps (mat_name conn) of
        None \<Rightarrow> False
      | Some mat \<Rightarrow>
          (case conn_offset conn mat of
             Inl e \<Rightarrow> False
           | Inr offset \<Rightarrow> list_all (slice_zero mat (dim conn)) (idxs_of offset)))"

text \<open>
  The connection names a proper array of the store and one of its axes, and its offset
  is defined.
\<close>

definition conn_proper :: "params \<Rightarrow> connection \<Rightarrow> bool" where
  "conn_proper ps conn =
     (case ps (mat_name conn) of
        None \<Rightarrow> False
      | Some mat \<Rightarrow>
          proper mat \<and> valid_axis mat (dim conn) \<and>
          (case conn_offset conn mat of Inl e \<Rightarrow> False | Inr offset \<Rightarrow> True))"

text \<open>
  Moreover the indices of all the neurons \<open>0, ..., n - 1\<close> of the layer lie inside the
  connection's axis.
\<close>

definition conn_in_range :: "bool \<Rightarrow> nat \<Rightarrow> params \<Rightarrow> connection \<Rightarrow> bool" where
  "conn_in_range mx n ps conn =
     (conn_proper ps conn \<and>
      (case ps (mat_name conn) of
         None \<Rightarrow> False
       | Some mat \<Rightarrow>
           (case conn_offset conn mat of
              Inl e \<Rightarrow> False
            | Inr offset \<Rightarrow>
                list_all (\<lambda>j. list_all (\<lambda>k. k < axis_len mat (dim conn))
                                 (target_idxs mx conn j offset)) [0..<n])))"

text \<open>
  What zeroing slices does to an array, and to the store: shapes stay, a proper array
  stays proper, and a zero slice stays zero.
\<close>

definition zeroed_from :: "ndarray \<Rightarrow> ndarray \<Rightarrow> bool" where
  "zeroed_from m m' =
     (shape m' = shape m \<and> (\<forall>e. axis_len m' e = axis_len m e) \<and>
      (\<forall>e. valid_axis m' e = valid_axis m e) \<and>
      (proper m \<longrightarrow> proper m' \<and> (\<forall>d k. slice_zero m d k \<longrightarrow> slice_zero m' d k)))"

definition store_le :: "params \<Rightarrow> params \<Rightarrow> bool" where
  "store_le ps ps' =
     (\<forall>name. case ps name of
                None \<Rightarrow> ps' name = None
              | Some m \<Rightarrow> (\<exists>m'. ps' name = Some m' \<and> zeroed_from m m'))"

text \<open>The state of the selection loop after it has marked the neuron \<open>d\<close>.\<close>

definition mark_pruned :: "nat \<Rightarrow> layer \<Rightarrow> layer" where
  "mark_pruned d l = l\<lparr>pruned_neurons := pruned_neurons l @ [d],
                       mask_mat := map_option (mask_out d) (mask_mat l)\<rparr>"

text \<open>The layer after \<open>self.activities /= self.n_obs; self.dists /= self.n_obs\<close>.\<close>

definition normalised :: "layer \<Rightarrow> real list \<Rightarrow> real list list \<Rightarrow> layer" where
  "normalised l a d = l\<lparr>activities := Some (map (\<lambda>v. v / n_obs l) a),
                         dists := Some (map (map (\<lambda>v. v / n_obs l)) d)\<rparr>"

text \<open>The candidate pairs in the order in which the loop of \<open>prune\<close> visits them.\<close>

definition candidate_pairs ::
  "(real list \<Rightarrow> nat list) \<Rightarrow> layer \<Rightarrow> real list \<Rightarrow> real list list \<Rightarrow> real list list
     \<Rightarrow> (nat \<times> nat) list" where
  "candidate_pairs argsort l a d m =
     map (unravel_index (length a))
       (argsort (concat (search_mat_of (map (\<lambda>v. v / n_obs l) a)
                           (map (map (\<lambda>v. v / n_obs l)) d) m)))"

section \<open>The layout file: \<open>PruningGradientDescent.initialize_layers\<close>\<close>

text \<open>The whitespace of \<open>str.strip()\<close> and \<open>str.split()\<close> on a byte string.\<close>

definition is_space :: "char \<Rightarrow> bool" where
  "is_space c = (c \<in> set [CHR '' '', CHR 0x09, CHR 0x0A, CHR 0x0B, CHR 0x0C, CHR 0x0D])"

definition py_strip :: "string \<Rightarrow> string" where
  "py_strip s = rev (dropWhile is_space (rev (dropWhile is_space s)))"

text \<open>\<open>str.split()\<close>: the maximal runs of characters that are not whitespace.\<close>

fun split_acc :: "string \<Rightarrow> string \<Rightarrow> string list" where
  "split_acc cur [] = (if cur = [] then [] else [cur])"
| "split_acc cur (c # cs) =
     (if is_space c then (if cur = [] then split_acc [] cs else cur # split_acc [] cs)
      else split_acc (cur @ [c]) cs)"

definition py_split :: "string \<Rightarrow> string list" where
  "py_split s = split_acc [] s"

definition digit_val :: "char \<Rightarrow> nat option" where
  "digit_val c = (let n = (of_char c :: nat) in if 48 \<le> n \<and> n \<le> 57 then Some (n - 48) else None)"

fun digits_to_nat :: "string \<Rightarrow> nat \<Rightarrow> nat option" where
  "digits_to_nat [] acc = Some acc"
| "digits_to_nat (c # cs) acc =
     (case digit_val c of None \<Rightarrow> None | Some d \<Rightarrow> digits_to_nat cs (acc * 10 + d))"

text \<open>
  \<open>int(s)\<close> and \<open>float(s)\<close> on the fields of a line, for the plain decimal forms: an
  optional sign, digits and, for \<open>float\<close>, a decimal point. The other forms that the
  built-ins accept (exponents, \<open>inf\<close>, \<open>nan\<close>, underscores) are not modelled and raise
  \<open>ValueError\<close> here; no theorem below depends on what they do. The value of \<open>float\<close>
  is the decimal number itself, without rounding to a \<open>double\<close>.
\<close>

definition unsigned_int :: "string \<Rightarrow> py_error + int" where
  "unsigned_int s =
     (if s = [] then Inl ValueError
      else case digits_to_nat s 0 of None \<Rightarrow> Inl ValueError | Some n \<Rightarrow> Inr (int n))"

definition py_int :: "string \<Rightarrow> py_error + int" where
  "py_int s =
     (case s of
        [] \<Rightarrow> Inl ValueError
      | c # cs \<Rightarrow>
          if c = CHR ''-'' then (case unsigned_int cs of Inl e \<Rightarrow> Inl e | Inr n \<Rightarrow> Inr (- n))
          else if c = CHR ''+'' then unsigned_int cs
          else unsigned_int s)"

definition unsigned_float :: "string \<Rightarrow> py_error + real" where
  "unsigned_float s =
     (let ip = takeWhile (\<lambda>c. c \<noteq> CHR ''.'') s;
          fp = drop 1 (dropWhile (\<lambda>c. c \<noteq> CHR ''.'') s)
      in if ip = [] \<and> fp = [] then Inl ValueError
         else case digits_to_nat ip 0 of
                None \<Rightarrow> Inl ValueError
              | Some a \<Rightarrow>
                  (case digits_to_nat fp 0 of
                     None \<Rightarrow> Inl ValueError
                   | Some b \<Rightarrow> Inr (real a + real b / 10 ^ length fp)))"

definition py_float :: "string \<Rightarrow> py_error + real" where
  "py_float s =
     (case s of
        [] \<Rightarrow> Inl ValueError
      | c # cs \<Rightarrow>
          if c = CHR ''-'' then (case unsigned_float cs of Inl e \<Rightarrow> Inl e | Inr x \<Rightarrow> Inr (- x))
          else if c = CHR ''+'' then unsigned_float cs
          else unsigned_float s)"

text \<open>
  What the body of the loop over the lines does with one line: it skips a blank line,
  logs a warning and skips a line that has not four or five fields, and otherwise
  builds the connection of the layer named by the first field.
\<close>

datatype layout_line = Blank | Syntax_warning | Conn_line string connection

definition parse_layout_line :: "string \<Rightarrow> py_error + layout_line" where
  "parse_layout_line line =
     (if py_strip line = [] then Inr Blank
      else
        let parts = py_split (py_strip line) in
        if \<not> (length parts = 4 \<or> length parts = 5) then Inr Syntax_warning
        else
          (case py_int (parts ! 3) of
             Inl e \<Rightarrow> Inl e
           | Inr d \<Rightarrow>
               (case (if length parts = 5 then py_float (parts ! 4) else Inr 0) of
                  Inl e \<Rightarrow> Inl e
                | Inr st \<Rightarrow>
                    Inr (Conn_line (parts ! 0)
                          \<lparr>direction = parts ! 1, mat_name = parts ! 2, dim = d,
                           start_idx = st\<rparr>))))"

text \<open>
  The loop over the lines of the file: the dictionary \<open>conns\<close> from layer names to
  their connections, and the number of warnings logged.
\<close>

fun read_layout ::
  "string list \<Rightarrow> (string \<rightharpoonup> connection list) \<Rightarrow> nat
     \<Rightarrow> py_error + (string \<rightharpoonup> connection list) \<times> nat" where
  "read_layout [] conns warnings = Inr (conns, warnings)"
| "read_layout (line # lines) conns warnings =
     (case parse_layout_line line of
        Inl e \<Rightarrow> Inl e
      | Inr Blank \<Rightarrow> read_layout lines conns warnings
      | Inr Syntax_warning \<Rightarrow> read_layout lines conns (warnings + 1)
      | Inr (Conn_line name conn) \<Rightarrow>
          read_layout lines
            (conns(name \<mapsto> (case conns name of None \<Rightarrow> [conn] | Some cs \<Rightarrow> cs @ [conn])))
            warnings)"

section \<open>\<open>KenLMPredictor.is_equal\<close> of \<open>cam/sgnmt/predictors/ngram.py\<close>\<close>

text \<open>
  A name that is not bound in the function is looked up in the module's globals and
  then among the built-ins; a name found in neither raises \<open>NameError\<close>.
\<close>

definition lookup_name ::
  "(string \<rightharpoonup> 'v) \<Rightarrow> (string \<rightharpoonup> 'v) \<Rightarrow> (string \<rightharpoonup> 'v) \<Rightarrow> string \<Rightarrow> py_error + 'v" where
  "lookup_name locals globals builtins x =
     (case locals x of
        Some v \<Rightarrow> Inr v
      | None \<Rightarrow>
          (case globals x of
             Some v \<Rightarrow> Inr v
           | None \<Rightarrow> (case builtins x of Some v \<Rightarrow> Inr v | None \<Rightarrow> Inl NameError)))"

text \<open>
  The names that the module \<open>ngram.py\<close> binds at its top level: those every module has,
  its imports (two of them inside \<open>try\<close>, so they may be absent) and its two classes.
\<close>

definition ngram_globals :: "string list" where
  "ngram_globals =
     [''__name__'', ''__doc__'', ''__file__'', ''__package__'', ''__builtins__'',
      ''UnboundedVocabularyPredictor'', ''utils'', ''math'',
      ''readLM'', ''initLM'', ''getNgramProb'', ''getIndexForWord'', ''howManyNgrams'',
      ''kenlm'', ''SRILMPredictor'', ''KenLMPredictor'']"

text \<open>
  \<open>KenLMPredictor.is_equal\<close>: \<open>return state == state2\<close>, in the scope of the
  parameters \<open>self\<close>, \<open>state1\<close> and \<open>state2\<close>.
\<close>

definition KenLM_is_equal ::
  "(string \<rightharpoonup> 'v) \<Rightarrow> (string \<rightharpoonup> 'v) \<Rightarrow> 'v \<Rightarrow> 'v \<Rightarrow> 'v \<Rightarrow> py_error + bool" where
  "KenLM_is_equal globals builtins self state1 state2 =
     (let locals = [''self'' \<mapsto> self, ''state1'' \<mapsto> state1, ''state2'' \<mapsto> state2] in
      case lookup_name locals globals builtins ''state'' of
        Inl e \<Rightarrow> Inl e
      | Inr a \<Rightarrow>
          (case lookup_name locals globals builtins ''state2'' of
             Inl e \<Rightarrow> Inl e
           | Inr b \<Rightarrow> Inr (a = b)))"

section \<open>Predicates of the accumulator\<close>

text \<open>\<open>register_activities\<close> on a sequence of batches, as the training loop calls it.\<close>

fun register_all :: "real list list list \<Rightarrow> layer \<Rightarrow> py_error + layer" where
  "register_all [] l = Inr l"
| "register_all (activity # rest) l =
     (case register_activities activity l of
        Inl e \<Rightarrow> Inl e
      | Inr l' \<Rightarrow> register_all rest l')"

text \<open>A square matrix that is symmetric and has no negative entry.\<close>

definition sym_nonneg :: "real list list \<Rightarrow> bool" where
  "sym_nonneg m =
     (is_square (length m) m \<and>
      (\<forall>i < length m. \<forall>j < length m. m ! i ! j = m ! j ! i \<and> 0 \<le> m ! i ! j))"

section \<open>Concrete inputs\<close>

text \<open>
  A layer of \<open>n\<close> neurons that has registered one observation in which every neuron
  was inactive, before its first \<open>prune\<close>.
\<close>

definition observed_layer :: "nat \<Rightarrow> int \<Rightarrow> int \<Rightarrow> layer" where
  "observed_layer n trg steps =
     (new_layer trg steps False)
       \<lparr>dists := Some (replicate n (replicate n 0)), activities := Some (replicate n 0),
        n_obs := 1, obs := [replicate n [0]]\<rparr>"

text \<open>The step size that the first \<open>prune\<close> of a layer derives, if it derives one.\<close>

definition first_step_size :: "layer \<Rightarrow> int option" where
  "first_step_size l = (case prune_init l of Inl e \<Rightarrow> None | Inr l1 \<Rightarrow> step_size l1)"

text \<open>
  A layer of three neurons with target size 2, pruned in one step, whose connection is
  the outbound matrix \<open>W\<close> (one row per neuron), and a weight store with that matrix.
\<close>

definition example_conn :: connection where
  "example_conn = \<lparr>direction = ''out'', mat_name = ''W'', dim = 0, start_idx = 0\<rparr>"

definition example_new :: layer where
  "example_new = (new_layer 2 1 False)\<lparr>connections := [example_conn]\<rparr>"

definition example_params :: params where
  "example_params = [''W'' \<mapsto> Mat [[1, 2], [3, 4], [5, 6]]]"

text \<open>
  The layer after it has registered a batch of two observations, in which the neurons
  0 and 1 were equally active.
\<close>

definition example_batch :: "real list list" where
  "example_batch = [[1, 1, 0], [2, 2, 1]]"

definition example_layer :: layer where
  "example_layer =
     example_new
       \<lparr>dists := Some [[0, 0, 2], [0, 0, 2], [2, 2, 0]], activities := Some [5, 5, 1],
        n_obs := 2, obs := [[[1, 2], [1, 2], [0, 1]]]\<rparr>"

text \<open>The layer and the store after \<open>prune\<close>: neuron 0 is pruned, its row of \<open>W\<close> is zero.\<close>

definition example_pruned :: layer where
  "example_pruned =
     example_layer
       \<lparr>dists := Some [[0, 0, 1], [0, 0, 1], [1, 1, 0]],
        activities := Some [5 / 2, 5 / 2, 1 / 2],
        mask_mat := Some [[10000, 10000, 10000], [10000, 10000, 10000], [10000, 0, 10000]],
        step_size := Some 2, pruned_neurons := [0]\<rparr>"

definition example_params_pruned :: params where
  "example_params_pruned = [''W'' \<mapsto> Mat [[0, 0], [3, 4], [5, 6]]]"

text \<open>The example layer after the lazy initialisation of its first \<open>prune\<close>.\<close>

definition example_initialised :: layer where
  "example_initialised =
     example_layer
       \<lparr>mask_mat := Some [[10000, 10000, 10000], [0, 10000, 10000], [0, 0, 10000]],
        step_size := Some 2\<rparr>"

text \<open>
  A layer of three neurons, pruned one neuron at a time down to one, after its first
  \<open>prune\<close> has pruned neuron 0 and zeroed row 0 of \<open>W\<close>, and a training step has then
  moved that row away from zero.
\<close>

definition stale_layer :: layer where
  "stale_layer =
     \<lparr>dists = Some [[0, 0, 2], [0, 0, 2], [2, 2, 0]], activities = Some [5, 5, 1],
      mask_mat = Some [[10000, 10000, 10000], [10000, 10000, 10000], [10000, 0, 10000]],
      n_obs = 2, trg_size = 1, n_steps = 3, step_size = Some 1,
      connections = [example_conn], pruned_neurons = [0],
      obs = [[[1, 2], [1, 2], [0, 1]]], maxout = False\<rparr>"

definition stale_params :: params where
  "stale_params = [''W'' \<mapsto> Mat [[1 / 2, 0], [3, 4], [5, 6]]]"

text \<open>
  A maxout layer of two neurons with the inbound matrix \<open>V\<close>, whose four columns are
  the two sub-units of each neuron, after one observation.
\<close>

definition maxout_conn :: connection where
  "maxout_conn = \<lparr>direction = ''in'', mat_name = ''V'', dim = 1, start_idx = 0\<rparr>"

definition maxout_layer :: layer where
  "maxout_layer =
     (new_layer 1 1 True)
       \<lparr>connections := [maxout_conn], dists := Some [[0, 1], [1, 0]],
        activities := Some [4, 1], n_obs := 1, obs := [[[2], [1]]]\<rparr>"

definition maxout_params :: params where
  "maxout_params = [''V'' \<mapsto> Mat [[1, 2, 3, 4], [5, 6, 7, 8]]]"

text \<open>What \<open>sanity_check\<close> reports right after \<open>prune\<close>, if both return.\<close>

definition sanity_after_prune ::
  "(real list \<Rightarrow> nat list) \<Rightarrow> layer \<Rightarrow> params \<Rightarrow> py_error + real" where
  "sanity_after_prune argsort l ps =
     (case prune argsort l ps of
        Inl e \<Rightarrow> Inl e
      | Inr (l', ps') \<Rightarrow> sanity_check l' ps')"

text \<open>The neurons marked as pruned after \<open>prune\<close>, if it returns.\<close>

definition pruned_after_prune ::
  "(real list \<Rightarrow> nat list) \<Rightarrow> layer \<Rightarrow> params \<Rightarrow> py_error + nat list" where
  "pruned_after_prune argsort l ps =
     (case prune argsort l ps of
        Inl e \<Rightarrow> Inl e
      | Inr (l', ps') \<Rightarrow> Inr (pruned_neurons l'))"

definition maxout_params_pruned :: params where
  "maxout_params_pruned = [''V'' \<mapsto> Mat [[1, 2, 0, 0], [5, 6, 0, 0]]]"

section \<open>Auxiliary facts\<close>

subsection \<open>The selection loop\<close>

lemma length_mask_out: "length (mask_out j m) = length m"
  by (simp add: mask_out_def)

lemma prune_scan_skip:
  "i \<in> set (pruned_neurons l) \<or> j \<in> set (pruned_neurons l) \<Longrightarrow>
   prune_scan n acts ((i, j) # rest) td l = prune_scan n acts rest td l"
  by simp

lemma prune_scan_take:
  "i \<notin> set (pruned_neurons l) \<Longrightarrow> j \<notin> set (pruned_neurons l) \<Longrightarrow>
   prune_scan n acts ((i, j) # rest) td l =
     (let d = (if acts ! i < acts ! j then i else j);
          s = (if acts ! i < acts ! j then j else i)
      in if n \<le> int (length td) + 1 then (td @ [(s, d)], mark_pruned d l)
         else prune_scan n acts rest (td @ [(s, d)]) (mark_pruned d l))"
  by (simp add: Let_def mark_pruned_def)

lemma prune_scan_invariant:
  assumes "prune_scan n acts idxs td l = (td', l')"
    and "P td l"
    and step: "\<And>td l i j s d. P td l \<Longrightarrow> (i, j) \<in> set idxs \<Longrightarrow>
           i \<notin> set (pruned_neurons l) \<Longrightarrow> j \<notin> set (pruned_neurons l) \<Longrightarrow>
           (s, d) = (i, j) \<or> (s, d) = (j, i) \<Longrightarrow>
           P (td @ [(s, d)]) (mark_pruned d l)"
  shows "P td' l'"
  using assms
proof (induction idxs arbitrary: td l)
  case Nil
  then show ?case by simp
next
  case (Cons p rest)
  obtain i j where p: "p = (i, j)" by (cases p)
  have step': "P (td @ [(s, d)]) (mark_pruned d l)"
    if "P td l" "(i, j) \<in> set rest" "i \<notin> set (pruned_neurons l)"
      "j \<notin> set (pruned_neurons l)" "(s, d) = (i, j) \<or> (s, d) = (j, i)"
    for td l i j s d
    using that by (intro Cons.prems(3)[of td l i j s d]) simp_all
  show ?case
  proof (cases "i \<in> set (pruned_neurons l) \<or> j \<in> set (pruned_neurons l)")
    case True
    with Cons.prems(1) p have "prune_scan n acts rest td l = (td', l')"
      by (simp only: prune_scan_skip)
    from Cons.IH[OF this Cons.prems(2) step'] show ?thesis .
  next
    case False
    then have ni: "i \<notin> set (pruned_neurons l)" and nj: "j \<notin> set (pruned_neurons l)"
      by simp_all
    define d where "d = (if acts ! i < acts ! j then i else j)"
    define s where "s = (if acts ! i < acts ! j then j else i)"
    have sd: "(s, d) = (i, j) \<or> (s, d) = (j, i)"
      by (simp add: d_def s_def)
    have P1: "P (td @ [(s, d)]) (mark_pruned d l)"
      using Cons.prems(3)[OF Cons.prems(2) _ ni nj sd] p by simp
    have eq: "(if n \<le> int (length td) + 1 then (td @ [(s, d)], mark_pruned d l)
         else prune_scan n acts rest (td @ [(s, d)]) (mark_pruned d l)) = (td', l')"
      using Cons.prems(1) p prune_scan_take[OF ni nj, of n acts rest td]
      by (simp add: Let_def d_def s_def)
    show ?thesis
    proof (cases "n \<le> int (length td) + 1")
      case True
      with eq P1 show ?thesis by simp
    next
      case False
      with eq have "prune_scan n acts rest (td @ [(s, d)]) (mark_pruned d l) = (td', l')"
        by simp
      from Cons.IH[OF this P1 step'] show ?thesis .
    qed
  qed
qed

lemma get_size_mark_pruned: "get_size (mark_pruned d l) = get_size l"
  by (cases "mask_mat l") (simp_all add: get_size_def length_mask_out mark_pruned_def)

lemma prune_scan_frame:
  assumes "prune_scan n acts idxs td l = (td', l')"
  shows "dists l' = dists l \<and> activities l' = activities l \<and> n_obs l' = n_obs l \<and>
     obs l' = obs l \<and> trg_size l' = trg_size l \<and> n_steps l' = n_steps l \<and>
     step_size l' = step_size l \<and> connections l' = connections l \<and>
     maxout l' = maxout l \<and> get_size l' = get_size l"
  by (rule prune_scan_invariant[OF assms, where P = "\<lambda>td k. dists k = dists l \<and> activities k = activities l \<and> n_obs k = n_obs l \<and>
     obs k = obs l \<and> trg_size k = trg_size l \<and> n_steps k = n_steps l \<and>
     step_size k = step_size l \<and> connections k = connections l \<and>
     maxout k = maxout l \<and> get_size k = get_size l"])
   (simp_all add: get_size_mark_pruned, simp_all add: mark_pruned_def)

text \<open>The pairs appended and the neurons marked.\<close>

lemma prune_scan_deleted:
  assumes "prune_scan n acts idxs td l = (td', l')"
  shows "\<exists>new. td' = td @ new \<and> pruned_neurons l' = pruned_neurons l @ map snd new \<and>
           distinct (map snd new) \<and> set (map snd new) \<inter> set (pruned_neurons l) = {} \<and>
           (\<forall>(s, d) \<in> set new. (s, d) \<in> set idxs \<or> (d, s) \<in> set idxs)"
proof (rule prune_scan_invariant[OF assms, where P = "\<lambda>t k. \<exists>new. t = td @ new \<and> pruned_neurons k = pruned_neurons l @ map snd new \<and>
           distinct (map snd new) \<and> set (map snd new) \<inter> set (pruned_neurons l) = {} \<and>
           (\<forall>(s, d) \<in> set new. (s, d) \<in> set idxs \<or> (d, s) \<in> set idxs)"], goal_cases)
  case 1
  show ?case by simp
next
  case (2 t k i j s d)
  then obtain new where new: "t = td @ new" "pruned_neurons k = pruned_neurons l @ map snd new"
    "distinct (map snd new)" "set (map snd new) \<inter> set (pruned_neurons l) = {}"
    "\<forall>(s, d) \<in> set new. (s, d) \<in> set idxs \<or> (d, s) \<in> set idxs"
    by blast
  from 2 have d: "d \<notin> set (pruned_neurons k)" by auto
  show ?case
  proof (intro exI[of _ "new @ [(s, d)]"] conjI)
    show "t @ [(s, d)] = td @ new @ [(s, d)]" using new by simp
    show "pruned_neurons (mark_pruned d k) = pruned_neurons l @ map snd (new @ [(s, d)])"
      using new by (simp add: mark_pruned_def)
    show "distinct (map snd (new @ [(s, d)]))" using new d by auto
    show "set (map snd (new @ [(s, d)])) \<inter> set (pruned_neurons l) = {}"
      using new d by auto
    show "\<forall>(s, d) \<in> set (new @ [(s, d)]). (s, d) \<in> set idxs \<or> (d, s) \<in> set idxs"
      using new 2 by auto
  qed
qed

lemma prune_scan_length:
  "prune_scan n acts idxs td l = (td', l') \<Longrightarrow> int (length td) < n \<Longrightarrow> int (length td') \<le> n"
proof (induction idxs arbitrary: td l)
  case Nil
  then show ?case by simp
next
  case (Cons p rest)
  obtain i j where p: "p = (i, j)" by (cases p)
  show ?case
  proof (cases "i \<in> set (pruned_neurons l) \<or> j \<in> set (pruned_neurons l)")
    case True
    with Cons p show ?thesis by (simp only: prune_scan_skip)
  next
    case False
    then have ni: "i \<notin> set (pruned_neurons l)" and nj: "j \<notin> set (pruned_neurons l)"
      by simp_all
    show ?thesis
      using Cons.prems p Cons.IH prune_scan_take[OF ni nj, of n acts rest td]
      by (auto simp: Let_def split: if_splits)
  qed
qed

lemma prune_scan_mono:
  assumes "prune_scan n acts idxs td l = (td', l')"
  shows "set (pruned_neurons l) \<subseteq> set (pruned_neurons l')"
  using prune_scan_deleted[OF assms] by auto

lemma mark_pruned_mem: "x \<in> set (pruned_neurons l) \<Longrightarrow> x \<in> set (pruned_neurons (mark_pruned d l))"
  by (simp add: mark_pruned_def)

lemma prune_scan_exhausted:
  "prune_scan n acts idxs td l = (td', l') \<Longrightarrow> int (length td') < n \<Longrightarrow>
   (i, j) \<in> set idxs \<Longrightarrow> i \<in> set (pruned_neurons l') \<or> j \<in> set (pruned_neurons l')"
proof (induction idxs arbitrary: td l)
  case Nil
  then show ?case by simp
next
  case (Cons p rest)
  obtain a b where p: "p = (a, b)" by (cases p)
  show ?case
  proof (cases "a \<in> set (pruned_neurons l) \<or> b \<in> set (pruned_neurons l)")
    case True
    with Cons.prems p have run: "prune_scan n acts rest td l = (td', l')"
      by (simp only: prune_scan_skip)
    show ?thesis
    proof (cases "(i, j) = (a, b)")
      case True
      with \<open>a \<in> set (pruned_neurons l) \<or> b \<in> set (pruned_neurons l)\<close>
        prune_scan_mono[OF run] show ?thesis by auto
    next
      case False
      with Cons.prems p have "(i, j) \<in> set rest" by auto
      from Cons.IH[OF run Cons.prems(2) this] show ?thesis .
    qed
  next
    case False
    then have ni: "a \<notin> set (pruned_neurons l)" and nj: "b \<notin> set (pruned_neurons l)"
      by simp_all
    define d where "d = (if acts ! a < acts ! b then a else b)"
    define s where "s = (if acts ! a < acts ! b then b else a)"
    have eq: "(if n \<le> int (length td) + 1 then (td @ [(s, d)], mark_pruned d l)
         else prune_scan n acts rest (td @ [(s, d)]) (mark_pruned d l)) = (td', l')"
      using Cons.prems(1) p prune_scan_take[OF ni nj, of n acts rest td]
      by (simp add: Let_def d_def s_def)
    show ?thesis
    proof (cases "n \<le> int (length td) + 1")
      case True
      with eq Cons.prems(2) show ?thesis by auto
    next
      case False
      with eq have run: "prune_scan n acts rest (td @ [(s, d)]) (mark_pruned d l) = (td', l')"
        by simp
      show ?thesis
      proof (cases "(i, j) = (a, b)")
        case True
        have "d \<in> set (pruned_neurons (mark_pruned d l))" by (simp add: mark_pruned_def)
        with prune_scan_mono[OF run] have "d \<in> set (pruned_neurons l')" by auto
        with True show ?thesis by (auto simp: d_def split: if_splits)
      next
        case False
        with Cons.prems p have "(i, j) \<in> set rest" by auto
        from Cons.IH[OF run Cons.prems(2) this] show ?thesis .
      qed
    qed
  qed
qed

subsection \<open>Zeroing slices\<close>

lemma ncols_map_update: "ncols (map (\<lambda>r. r[k := z]) rows) = ncols rows"
  by (cases rows) simp_all

lemma ncols_list_update:
  "length z = length (rows ! k) \<Longrightarrow> ncols (rows[k := z]) = ncols rows"
  by (cases rows; cases k) simp_all

lemma set_zero_shape:
  "set_zero_in_mat mat d idx = Inr m' \<Longrightarrow> shape m' = shape mat"
  by (cases mat) (auto simp: ncols_map_update ncols_list_update split: if_splits)

lemma set_zero_axis_len:
  "set_zero_in_mat mat d idx = Inr m' \<Longrightarrow> axis_len m' e = axis_len mat e"
  by (cases mat) (auto simp: ncols_map_update ncols_list_update split: if_splits)

lemma set_zero_valid_axis:
  "set_zero_in_mat mat d idx = Inr m' \<Longrightarrow> valid_axis m' e = valid_axis mat e"
  by (cases mat) (auto split: if_splits)

lemma set_zero_proper:
  "set_zero_in_mat mat d idx = Inr m' \<Longrightarrow> proper mat \<Longrightarrow> proper m'"
proof (cases mat)
  case (Vec v)
  then show "set_zero_in_mat mat d idx = Inr m' \<Longrightarrow> proper mat \<Longrightarrow> proper m'"
    by (auto split: if_splits)
next
  case (Mat rows)
  assume a: "set_zero_in_mat mat d idx = Inr m'" "proper mat"
  show "proper m'"
  proof (cases "d = 0")
    case True
    with a Mat have m': "m' = Mat (rows[idx := map (\<lambda>_. 0) (rows ! idx)])" and "idx < length rows"
      by (auto split: if_splits)
    have nc: "ncols (rows[idx := map (\<lambda>_. 0) (rows ! idx)]) = ncols rows"
      by (rule ncols_list_update) simp
    from a Mat have "rectangular rows" "0 < ncols rows" by simp_all
    then show ?thesis
      unfolding m' using nc \<open>idx < length rows\<close>
      by (auto simp: rectangular_def list_all_iff dest!: set_update_subset_insert[THEN subsetD])
  next
    case False
    with a Mat show ?thesis
      by (auto simp: rectangular_def list_all_iff ncols_map_update split: if_splits)
  qed
qed

lemma set_zero_hits:
  assumes "set_zero_in_mat mat d idx = Inr m'" "proper mat" "valid_axis mat d"
  shows "slice_zero m' d idx"
proof (cases mat)
  case (Vec v)
  with assms show ?thesis
    by (auto simp: slice_zero_def split: if_splits)
next
  case (Mat rows)
  show ?thesis
  proof (cases "d = 0")
    case True
    with assms Mat show ?thesis
      by (auto simp: slice_zero_def list_all_iff split: if_splits)
  next
    case False
    with assms Mat have d: "d = 1" by simp
    with assms Mat have m': "m' = Mat (map (\<lambda>r. r[idx := 0]) rows)" and idx: "idx < ncols rows"
      by (auto split: if_splits)
    from assms Mat have "\<forall>r \<in> set rows. length r = ncols rows"
      by (simp add: rectangular_def list_all_iff)
    with idx show ?thesis
      unfolding m' using d
      by (auto simp: slice_zero_def list_all_iff ncols_map_update)
  qed
qed

lemma list_update_zero_all:
  "list_all (\<lambda>x. x = (0::real)) r \<Longrightarrow> list_all (\<lambda>x. x = 0) (r[k := 0])"
  by (auto simp: list_all_iff dest!: set_update_subset_insert[THEN subsetD])

lemma nth_update_zero:
  "k < length r \<Longrightarrow> r ! k = 0 \<Longrightarrow> (r[k' := 0]) ! k = (0::real)"
  by (cases "k = k'") simp_all

lemma set_zero_keeps:
  assumes "set_zero_in_mat mat d' k' = Inr m'" "proper mat" "slice_zero mat d k"
  shows "slice_zero m' d k"
proof (cases mat)
  case (Vec v)
  with assms show ?thesis
    by (auto simp: slice_zero_def nth_list_update split: if_splits)
next
  case (Mat rows)
  from assms Mat have rect: "\<forall>r \<in> set rows. length r = ncols rows"
    by (simp add: rectangular_def list_all_iff)
  from assms Mat have dd: "d = 0 \<or> d = 1" by (simp add: slice_zero_def)
  consider (row) "d' = 0" | (col) "d' \<noteq> 0" "d' = 1" | (none) "d' \<noteq> 0" "d' \<noteq> 1" by blast
  then show ?thesis
  proof cases
    case row
    with assms Mat have m': "m' = Mat (rows[k' := map (\<lambda>_. 0) (rows ! k')])" and k': "k' < length rows"
      by (auto split: if_splits)
    have nc: "ncols (rows[k' := map (\<lambda>_. 0) (rows ! k')]) = ncols rows"
      by (rule ncols_list_update) simp
    from k' rect have lk: "length (rows ! k') = ncols rows" by simp
    show ?thesis
    proof (cases "d = 0")
      case True
      from assms(3) Mat True have k: "k < length rows"
        and z: "list_all (\<lambda>x. x = 0) (rows ! k)"
        by (simp_all add: slice_zero_def)
      have "list_all (\<lambda>x. x = 0) (rows[k' := map (\<lambda>_. 0) (rows ! k')] ! k)"
        using k z by (cases "k = k'") (simp_all add: list_all_iff)
      with k True show ?thesis
        unfolding m' by (simp add: slice_zero_def)
    next
      case False
      with dd have d: "d = 1" by simp
      from assms(3) Mat d have k: "k < ncols rows" and z: "\<forall>r \<in> set rows. r ! k = 0"
        by (simp_all add: slice_zero_def list_all_iff)
      have "\<forall>r \<in> set (rows[k' := map (\<lambda>_. 0) (rows ! k')]). r ! k = 0"
      proof
        fix r assume "r \<in> set (rows[k' := map (\<lambda>_. 0) (rows ! k')])"
        then have "r = map (\<lambda>_. 0) (rows ! k') \<or> r \<in> set rows"
          using set_update_subset_insert by fastforce
        with z k lk show "r ! k = 0" by auto
      qed
      with k nc d show ?thesis
        unfolding m' by (simp add: slice_zero_def list_all_iff)
    qed
  next
    case col
    with assms Mat have m': "m' = Mat (map (\<lambda>r. r[k' := 0]) rows)"
      by (auto split: if_splits)
    show ?thesis
    proof (cases "d = 0")
      case True
      with assms(3) Mat show ?thesis
        unfolding m' by (auto simp: slice_zero_def list_update_zero_all)
    next
      case False
      with dd have d: "d = 1" by simp
      from assms(3) Mat d have k: "k < ncols rows" and z: "\<forall>r \<in> set rows. r ! k = 0"
        by (simp_all add: slice_zero_def list_all_iff)
      with rect d show ?thesis
        unfolding m' by (auto simp: slice_zero_def list_all_iff ncols_map_update nth_update_zero)
    qed
  next
    case none
    with assms Mat show ?thesis by auto
  qed
qed

subsection \<open>The weight store under compensation\<close>

lemma zeroed_from_refl: "zeroed_from m m"
  by (simp add: zeroed_from_def)

lemma zeroed_from_trans: "zeroed_from a b \<Longrightarrow> zeroed_from b c \<Longrightarrow> zeroed_from a c"
  by (auto simp: zeroed_from_def)

lemma set_zero_zeroed_from:
  assumes "set_zero_in_mat mat d idx = Inr m'"
  shows "zeroed_from mat m'"
  unfolding zeroed_from_def
  using set_zero_shape[OF assms] set_zero_axis_len[OF assms] set_zero_valid_axis[OF assms]
    set_zero_proper[OF assms] set_zero_keeps[OF assms]
  by simp

lemma store_le_refl: "store_le ps ps"
  by (auto simp: store_le_def zeroed_from_refl split: option.splits)

lemma store_le_trans:
  assumes "store_le a b" "store_le b c"
  shows "store_le a c"
  unfolding store_le_def
proof
  fix name
  show "case a name of None \<Rightarrow> c name = None
        | Some m \<Rightarrow> \<exists>m'. c name = Some m' \<and> zeroed_from m m'"
  proof (cases "a name")
    case None
    with assms show ?thesis
      by (auto simp: store_le_def split: option.splits dest!: spec[of _ name])
  next
    case (Some m)
    with assms(1) obtain m1 where m1: "b name = Some m1" "zeroed_from m m1"
      by (auto simp: store_le_def split: option.splits dest!: spec[of _ name])
    with assms(2) obtain m2 where "c name = Some m2" "zeroed_from m1 m2"
      by (auto simp: store_le_def split: option.splits dest!: spec[of _ name])
    with m1 Some show ?thesis
      using zeroed_from_trans by auto
  qed
qed

lemma store_le_update:
  "ps name = Some m \<Longrightarrow> zeroed_from m m' \<Longrightarrow> store_le ps (ps(name \<mapsto> m'))"
  by (auto simp: store_le_def zeroed_from_refl split: option.splits)

lemma conn_offset_shape: "shape m' = shape m \<Longrightarrow> conn_offset c m' = conn_offset c m"
  by (simp add: conn_offset_def shape_at_def Let_def)

lemma store_le_lookup:
  assumes "store_le ps ps'" "ps name = Some m"
  obtains m' where "ps' name = Some m'" "zeroed_from m m'"
  using assms by (auto simp: store_le_def split: option.splits dest!: spec[of _ name])

lemma store_le_conn_proper:
  assumes "store_le ps ps'" "conn_proper ps c"
  shows "conn_proper ps' c"
proof -
  from assms(2) obtain m where m: "ps (mat_name c) = Some m"
    by (auto simp: conn_proper_def split: option.splits)
  from store_le_lookup[OF assms(1) m] obtain m' where
    m': "ps' (mat_name c) = Some m'" "zeroed_from m m'" .
  from m'(2) have "conn_offset c m' = conn_offset c m"
    by (intro conn_offset_shape) (simp add: zeroed_from_def)
  with assms(2) m m' show ?thesis
    by (auto simp: conn_proper_def zeroed_from_def split: sum.splits)
qed

lemma store_le_conn_zero:
  assumes "store_le ps ps'" "conn_proper ps c" "conn_zero ps c f"
  shows "conn_zero ps' c f"
proof -
  from assms(2) obtain m where m: "ps (mat_name c) = Some m" "proper m"
    by (auto simp: conn_proper_def split: option.splits)
  from store_le_lookup[OF assms(1) m(1)] obtain m' where
    m': "ps' (mat_name c) = Some m'" "zeroed_from m m'" .
  from m'(2) have "conn_offset c m' = conn_offset c m"
    by (intro conn_offset_shape) (simp add: zeroed_from_def)
  with assms(3) m m' show ?thesis
    by (auto simp: conn_zero_def zeroed_from_def list_all_iff split: sum.splits)
qed

lemma store_le_conn_in_range:
  assumes "store_le ps ps'" "conn_in_range mx n ps c"
  shows "conn_in_range mx n ps' c"
proof -
  from assms(2) have cp: "conn_proper ps c" by (simp add: conn_in_range_def)
  from assms(2) obtain m where m: "ps (mat_name c) = Some m"
    by (auto simp: conn_in_range_def split: option.splits)
  from store_le_lookup[OF assms(1) m] obtain m' where
    m': "ps' (mat_name c) = Some m'" "zeroed_from m m'" .
  from m'(2) have "conn_offset c m' = conn_offset c m"
    by (intro conn_offset_shape) (simp add: zeroed_from_def)
  with assms(2) m m' store_le_conn_proper[OF assms(1) cp] show ?thesis
    by (auto simp: conn_in_range_def zeroed_from_def split: sum.splits)
qed

text \<open>One connection.\<close>

lemma compensate_conn_Inr:
  assumes "compensate_conn mx j c ps = Inr ps'"
  shows "\<exists>mat off m'. ps (mat_name c) = Some mat \<and> conn_offset c mat = Inr off \<and>
    ps' = ps(mat_name c \<mapsto> m') \<and> zeroed_from mat m' \<and>
    (proper mat \<longrightarrow> valid_axis mat (dim c) \<longrightarrow>
       list_all (slice_zero m' (dim c)) (target_idxs mx c j off))"
proof -
  from assms obtain mat where mat: "ps (mat_name c) = Some mat"
    by (auto simp: compensate_conn_def split: option.splits)
  with assms obtain off where off: "conn_offset c mat = Inr off"
    by (auto simp: compensate_conn_def split: sum.splits)
  show ?thesis
  proof (cases "direction c = ''in'' \<and> mx")
    case True
    with assms mat off obtain m1 m' where
      z: "set_zero_in_mat mat (dim c) ((j + off) * 2) = Inr m1"
         "set_zero_in_mat m1 (dim c) ((j + off) * 2 + 1) = Inr m'"
         "ps' = ps(mat_name c \<mapsto> m')"
      by (auto simp: compensate_conn_def Let_def split: sum.splits)
    have le1: "zeroed_from mat m1" and le2: "zeroed_from m1 m'"
      using z set_zero_zeroed_from by blast+
    have hit: "list_all (slice_zero m' (dim c)) (target_idxs mx c j off)"
      if p: "proper mat" and v: "valid_axis mat (dim c)"
    proof -
      have "slice_zero m1 (dim c) ((j + off) * 2)"
        using set_zero_hits[OF z(1) p v] .
      moreover have p1: "proper m1" using le1 p by (simp add: zeroed_from_def)
      ultimately have a: "slice_zero m' (dim c) ((j + off) * 2)"
        using set_zero_keeps[OF z(2)] by blast
      have "valid_axis m1 (dim c)" using le1 v by (simp add: zeroed_from_def)
      then have "slice_zero m' (dim c) ((j + off) * 2 + 1)"
        using set_zero_hits[OF z(2) p1] by blast
      with a True show ?thesis by (simp add: target_idxs_def)
    qed
    from mat off z(3) zeroed_from_trans[OF le1 le2] hit show ?thesis
      by blast
  next
    case False
    with assms mat off obtain m' where
      z: "set_zero_in_mat mat (dim c) (j + off) = Inr m'" "ps' = ps(mat_name c \<mapsto> m')"
      by (auto simp: compensate_conn_def Let_def split: sum.splits)
    have hit: "list_all (slice_zero m' (dim c)) (target_idxs mx c j off)"
      if p: "proper mat" and v: "valid_axis mat (dim c)"
      using set_zero_hits[OF z(1) p v] False by (auto simp: target_idxs_def)
    from mat off z(2) set_zero_zeroed_from[OF z(1)] hit show ?thesis
      by blast
  qed
qed

lemma compensate_conn_store_le:
  assumes "compensate_conn mx j c ps = Inr ps'"
  shows "store_le ps ps'"
proof -
  from compensate_conn_Inr[OF assms] obtain mat m' where "ps (mat_name c) = Some mat"
    "ps' = ps(mat_name c \<mapsto> m')" "zeroed_from mat m'"
    by blast
  then show ?thesis by (simp add: store_le_update)
qed

lemma compensate_conn_hits:
  assumes "compensate_conn mx j c ps = Inr ps'" "conn_proper ps c"
  shows "conn_zero ps' c (target_idxs mx c j)"
proof -
  from compensate_conn_Inr[OF assms(1)] obtain mat off m' where
    h: "ps (mat_name c) = Some mat" "conn_offset c mat = Inr off"
     "ps' = ps(mat_name c \<mapsto> m')" "zeroed_from mat m'"
    "proper mat \<longrightarrow> valid_axis mat (dim c) \<longrightarrow>
       list_all (slice_zero m' (dim c)) (target_idxs mx c j off)"
    by blast
  from assms(2) h(1) have "proper mat" "valid_axis mat (dim c)"
    by (simp_all add: conn_proper_def)
  moreover from h(4) have "conn_offset c m' = conn_offset c mat"
    by (intro conn_offset_shape) (simp add: zeroed_from_def)
  ultimately show ?thesis
    using h by (simp add: conn_zero_def)
qed

text \<open>The loops.\<close>

lemma compensate_conns_store_le:
  "compensate_conns mx j cs ps = Inr ps' \<Longrightarrow> store_le ps ps'"
proof (induction cs arbitrary: ps)
  case Nil
  then show ?case by (simp add: store_le_refl)
next
  case (Cons c cs)
  then obtain ps1 where s: "compensate_conn mx j c ps = Inr ps1"
    "compensate_conns mx j cs ps1 = Inr ps'"
    by (auto split: sum.splits)
  from compensate_conn_store_le[OF s(1)] Cons.IH[OF s(2)] show ?case
    by (rule store_le_trans)
qed

lemma compensate_conns_hits:
  "compensate_conns mx j cs ps = Inr ps' \<Longrightarrow> c \<in> set cs \<Longrightarrow> conn_proper ps c \<Longrightarrow>
   conn_zero ps' c (target_idxs mx c j)"
proof (induction cs arbitrary: ps)
  case Nil
  then show ?case by simp
next
  case (Cons c0 cs)
  then obtain ps1 where s: "compensate_conn mx j c0 ps = Inr ps1"
    "compensate_conns mx j cs ps1 = Inr ps'"
    by (auto split: sum.splits)
  have le1: "store_le ps ps1" by (rule compensate_conn_store_le[OF s(1)])
  have cp1: "conn_proper ps1 c" by (rule store_le_conn_proper[OF le1 Cons.prems(3)])
  show ?case
  proof (cases "c \<in> set cs")
    case True
    from Cons.IH[OF s(2) True cp1] show ?thesis .
  next
    case False
    with Cons.prems(2) have "c = c0" by simp
    with compensate_conn_hits[OF s(1)] Cons.prems(3)
    have "conn_zero ps1 c (target_idxs mx c j)" by simp
    from store_le_conn_zero[OF compensate_conns_store_le[OF s(2)] cp1 this]
    show ?thesis .
  qed
qed

lemma compensate_sum_store_le:
  "compensate_for_pruning_sum td l ps = Inr ps' \<Longrightarrow> store_le ps ps'"
proof (induction td arbitrary: ps)
  case Nil
  then show ?case by (simp add: store_le_refl)
next
  case (Cons p td)
  obtain i j where p: "p = (i, j)" by (cases p)
  with Cons.prems obtain ps1 where
    s: "compensate_conns (maxout l) j (connections l) ps = Inr ps1"
    "compensate_for_pruning_sum td l ps1 = Inr ps'"
    by (auto split: sum.splits)
  from compensate_conns_store_le[OF s(1)] Cons.IH[OF s(2)] show ?case
    by (rule store_le_trans)
qed

lemma compensate_sum_hits:
  "compensate_for_pruning_sum td l ps = Inr ps' \<Longrightarrow> (i, j) \<in> set td \<Longrightarrow>
   c \<in> set (connections l) \<Longrightarrow> conn_proper ps c \<Longrightarrow>
   conn_zero ps' c (target_idxs (maxout l) c j)"
proof (induction td arbitrary: ps)
  case Nil
  then show ?case by simp
next
  case (Cons p td)
  obtain i0 j0 where p: "p = (i0, j0)" by (cases p)
  with Cons.prems obtain ps1 where
    s: "compensate_conns (maxout l) j0 (connections l) ps = Inr ps1"
    "compensate_for_pruning_sum td l ps1 = Inr ps'"
    by (auto split: sum.splits)
  have le1: "store_le ps ps1" by (rule compensate_conns_store_le[OF s(1)])
  have cp1: "conn_proper ps1 c" by (rule store_le_conn_proper[OF le1 Cons.prems(4)])
  show ?case
  proof (cases "(i, j) \<in> set td")
    case True
    from Cons.IH[OF s(2) True Cons.prems(3) cp1] show ?thesis .
  next
    case False
    with Cons.prems(2) p have "j = j0" by simp
    with compensate_conns_hits[OF s(1) Cons.prems(3) Cons.prems(4)]
    have "conn_zero ps1 c (target_idxs (maxout l) c j)" by simp
    from store_le_conn_zero[OF compensate_sum_store_le[OF s(2)] cp1 this]
    show ?thesis .
  qed
qed

text \<open>The strategy returns when every index is in range.\<close>

lemma set_zero_returns:
  "valid_axis mat d \<Longrightarrow> idx < axis_len mat d \<Longrightarrow> \<exists>m'. set_zero_in_mat mat d idx = Inr m'"
  by (cases mat) auto

lemma compensate_conn_returns:
  assumes "conn_in_range mx n ps c" "j < n"
  shows "\<exists>ps'. compensate_conn mx j c ps = Inr ps'"
proof -
  from assms(1) obtain mat off where
    h: "ps (mat_name c) = Some mat" "conn_offset c mat = Inr off" "valid_axis mat (dim c)"
    and r: "list_all (\<lambda>j. list_all (\<lambda>k. k < axis_len mat (dim c))
                                 (target_idxs mx c j off)) [0..<n]"
    by (auto simp: conn_in_range_def conn_proper_def split: option.splits sum.splits)
  from r assms(2) have r': "list_all (\<lambda>k. k < axis_len mat (dim c)) (target_idxs mx c j off)"
    by (simp add: list_all_iff)
  show ?thesis
  proof (cases "direction c = ''in'' \<and> mx")
    case True
    with r' have b: "(j + off) * 2 < axis_len mat (dim c)" "(j + off) * 2 + 1 < axis_len mat (dim c)"
      by (simp_all add: target_idxs_def)
    from set_zero_returns[OF h(3) b(1)] obtain m1 where
      m1: "set_zero_in_mat mat (dim c) ((j + off) * 2) = Inr m1" by blast
    have "valid_axis m1 (dim c)" "(j + off) * 2 + 1 < axis_len m1 (dim c)"
      using set_zero_valid_axis[OF m1] set_zero_axis_len[OF m1] h(3) b(2) by simp_all
    from set_zero_returns[OF this] obtain m2 where
      "set_zero_in_mat m1 (dim c) ((j + off) * 2 + 1) = Inr m2" by blast
    with m1 h True show ?thesis by (simp add: compensate_conn_def)
  next
    case False
    with r' have "j + off < axis_len mat (dim c)" by (simp add: target_idxs_def)
    from set_zero_returns[OF h(3) this] obtain m1 where
      "set_zero_in_mat mat (dim c) (j + off) = Inr m1" by blast
    with h False show ?thesis by (auto simp add: compensate_conn_def)
  qed
qed

lemma compensate_conns_returns:
  assumes "\<forall>c \<in> set cs. conn_in_range mx n ps c" "j < n"
  shows "\<exists>ps'. compensate_conns mx j cs ps = Inr ps'"
  using assms
proof (induction cs arbitrary: ps)
  case Nil
  then show ?case by simp
next
  case (Cons c cs)
  from compensate_conn_returns[of mx n ps c j] Cons.prems obtain ps1 where
    s: "compensate_conn mx j c ps = Inr ps1" by auto
  have "\<forall>c \<in> set cs. conn_in_range mx n ps1 c"
    using Cons.prems(1) store_le_conn_in_range[OF compensate_conn_store_le[OF s]] by simp
  from Cons.IH[OF this Cons.prems(2)] s show ?case by simp
qed

lemma compensate_sum_returns:
  assumes "\<forall>c \<in> set (connections l). conn_in_range (maxout l) n ps c"
    "\<forall>(i, j) \<in> set td. j < n"
  shows "\<exists>ps'. compensate_for_pruning_sum td l ps = Inr ps'"
  using assms
proof (induction td arbitrary: ps)
  case Nil
  then show ?case by simp
next
  case (Cons p td)
  obtain i j where p: "p = (i, j)" by (cases p)
  with Cons.prems have j: "j < n" by simp
  from compensate_conns_returns[OF Cons.prems(1) j] obtain ps1 where
    s: "compensate_conns (maxout l) j (connections l) ps = Inr ps1" by blast
  have "\<forall>c \<in> set (connections l). conn_in_range (maxout l) n ps1 c"
    using Cons.prems(1) store_le_conn_in_range[OF compensate_conns_store_le[OF s]] by simp
  from Cons.IH[OF this] Cons.prems(2) s p show ?case by simp
qed

subsection \<open>The candidate pairs\<close>

lemma is_square_length_concat: "is_square n m \<Longrightarrow> length (concat m) = n * n"
proof -
  assume a: "is_square n m"
  then have "map length m = replicate n n"
    by (auto simp: is_square_def list_all_iff intro!: replicate_eqI)
  then show ?thesis by (simp add: length_concat sum_list_replicate)
qed

lemma is_square_zip_map:
  assumes "is_square n a" "is_square n b"
  shows "is_square n (map (\<lambda>(r, s). map f (zip r s)) (zip a b))"
proof -
  have "length (map f (zip r s)) = n" if "(r, s) \<in> set (zip a b)" for r s
  proof -
    from that have "r \<in> set a" "s \<in> set b"
      by (auto dest: set_zip_leftD set_zip_rightD)
    with assms show ?thesis by (simp add: is_square_def list_all_iff)
  qed
  with assms show ?thesis
    by (auto simp: is_square_def list_all_iff)
qed

lemma is_square_discounts: "is_square (length a) (get_activity_discounts a)"
  by (simp add: is_square_def get_activity_discounts_def list_all_iff)

lemma is_square_search_mat:
  assumes "is_square (length a) d" "is_square (length a) m"
  shows "is_square (length a) (search_mat_of a d m)"
  unfolding search_mat_of_def mat_add_def np_multiply_def
  by (intro is_square_zip_map assms is_square_discounts)

lemma is_square_map_map: "is_square n (map (map f) d) = is_square n d"
  by (simp add: is_square_def list_all_iff)


text \<open>What an argsort gives the loop.\<close>

lemma is_argsort_set: "is_argsort argsort \<Longrightarrow> set (argsort v) = {0..<length v}"
proof -
  assume "is_argsort argsort"
  then have "mset (argsort v) = mset [0..<length v]" by (simp add: is_argsort_def)
  then have "set (argsort v) = set [0..<length v]" by (rule mset_eq_setD)
  then show ?thesis by simp
qed

lemma unravel_index_pair: "j < n \<Longrightarrow> unravel_index n (i * n + j) = (i, j)"
  by (simp add: unravel_index_def)

lemma unravel_index_bound:
  "k < n * n \<Longrightarrow> fst (unravel_index n k) < n \<and> snd (unravel_index n k) < n"
proof -
  assume k: "k < n * n"
  then have n: "0 < n" by (cases n) simp_all
  from k have "k div n < n" by (simp add: less_mult_imp_div_less)
  with n show ?thesis by (simp add: unravel_index_def)
qed

lemma candidate_pairs_props:
  assumes "is_argsort argsort" "is_square (length a) d" "is_square (length a) m"
  shows "list_all (\<lambda>k. k < length a * length a)
           (argsort (concat (search_mat_of (map (\<lambda>v. v / n_obs l) a)
                           (map (map (\<lambda>v. v / n_obs l)) d) m)))"
    and "\<And>i j. i < length a \<Longrightarrow> j < length a \<Longrightarrow> (i, j) \<in> set (candidate_pairs argsort l a d m)"
    and "\<And>i j. (i, j) \<in> set (candidate_pairs argsort l a d m) \<Longrightarrow> i < length a \<and> j < length a"
proof -
  let ?a = "map (\<lambda>v. v / n_obs l) a"
  let ?v = "concat (search_mat_of ?a (map (map (\<lambda>v. v / n_obs l)) d) m)"
  have "is_square (length ?a) (search_mat_of ?a (map (map (\<lambda>v. v / n_obs l)) d) m)"
    by (rule is_square_search_mat) (simp_all add: is_square_map_map assms)
  then have len: "length ?v = length a * length a"
    using is_square_length_concat by fastforce
  have set: "set (argsort ?v) = {0..<length a * length a}"
    using is_argsort_set[OF assms(1), of ?v] len by simp
  then show "list_all (\<lambda>k. k < length a * length a) (argsort ?v)"
    by (simp add: list_all_iff)
  show "(i, j) \<in> set (candidate_pairs argsort l a d m)" if "i < length a" "j < length a" for i j
  proof -
    from that have "i * length a + j < length a * length a"
      by (metis add.commute mult.commute mult_Suc_right nat_add_left_cancel_less
          mult_le_mono1 Suc_leI less_le_trans add_less_mono1 linorder_not_le not_less_eq)
    then have "i * length a + j \<in> set (argsort ?v)" using set by simp
    then have "unravel_index (length a) (i * length a + j) \<in> set (candidate_pairs argsort l a d m)"
      unfolding candidate_pairs_def by simp
    with that show ?thesis by (simp add: unravel_index_pair)
  qed
  show "i < length a \<and> j < length a" if "(i, j) \<in> set (candidate_pairs argsort l a d m)" for i j
  proof -
    from that obtain k where "k \<in> set (argsort ?v)" "(i, j) = unravel_index (length a) k"
      unfolding candidate_pairs_def by auto
    with set unravel_index_bound[of k "length a"] show ?thesis
      by (metis atLeastLessThan_iff fst_conv snd_conv)
  qed
qed


lemma prune_select_eq:
  assumes "is_argsort argsort" "activities l = Some a" "dists l = Some d"
    "mask_mat l = Some m" "is_square (length a) d" "is_square (length a) m" "0 < length a"
  shows "prune_select argsort n l ps =
     (case prune_scan n (map (\<lambda>v. v / n_obs l) a) (candidate_pairs argsort l a d m) []
             (normalised l a d) of
        (td, l3) \<Rightarrow>
          (case compensate_for_pruning td l3 ps of
             Inl e \<Rightarrow> Inl e
           | Inr ps' \<Rightarrow> if td = [] then Inl UnboundLocalError else Inr (l3, ps')))"
proof -
  have "(0, 0) \<in> set (candidate_pairs argsort l a d m)"
    using candidate_pairs_props(2)[OF assms(1,5,6)] assms(7) by blast
  then have ne: "candidate_pairs argsort l a d m \<noteq> []" by auto
  have sq: "is_square (length a) (map (map (\<lambda>v. v / n_obs l)) d)"
    using assms(5) by (simp add: is_square_map_map)
  note r = candidate_pairs_props(1)[OF assms(1,5,6), of l]
  show ?thesis
    unfolding prune_select_def
    using ne sq r assms(6)
    by (simp add: assms(2,3,4) Let_def candidate_pairs_def[symmetric] normalised_def
        del: map_map)
qed

lemma prune_scan_full:
  assumes scan: "prune_scan n acts idxs [] l = (td, l')"
    and n: "0 < n" "n \<le> int sz - int (length (pruned_neurons l))"
    and diag: "\<And>i. i < sz \<Longrightarrow> (i, i) \<in> set idxs"
  shows "int (length td) = n"
proof (rule ccontr)
  assume neq: "int (length td) \<noteq> n"
  have "int (length td) \<le> n"
    using prune_scan_length[OF scan] n(1) by simp
  with neq have less: "int (length td) < n" by simp
  have "i \<in> set (pruned_neurons l')" if "i < sz" for i
    using prune_scan_exhausted[OF scan less diag[OF that]] by simp
  then have "{0..<sz} \<subseteq> set (pruned_neurons l')" by auto
  then have "card {0..<sz} \<le> card (set (pruned_neurons l'))"
    by (intro card_mono) simp_all
  also have "\<dots> \<le> length (pruned_neurons l')" by (rule card_length)
  finally have "sz \<le> length (pruned_neurons l')" by simp
  moreover from prune_scan_deleted[OF scan] have
    "length (pruned_neurons l') = length (pruned_neurons l) + length td"
    by auto
  ultimately show False using less n(2) by simp
qed

subsection \<open>The call of \<open>prune\<close>\<close>

lemma prune_init_frame:
  assumes "prune_init l = Inr l1"
  shows "dists l1 = dists l \<and> activities l1 = activities l \<and> n_obs l1 = n_obs l \<and>
     obs l1 = obs l \<and> trg_size l1 = trg_size l \<and> n_steps l1 = n_steps l \<and>
     connections l1 = connections l \<and> maxout l1 = maxout l \<and>
     pruned_neurons l1 = pruned_neurons l"
  using assms
  by (auto simp: prune_init_def initialize_mask_def derive_step_size_def get_size_def
      split: if_splits option.splits sum.splits)

lemma prune_init_returns:
  assumes "mask_mat l \<noteq> None \<or> dists l \<noteq> None \<and> n_steps l \<noteq> 0"
  shows "\<exists>l1. prune_init l = Inr l1"
  using assms
  by (auto simp: prune_init_def initialize_mask_def derive_step_size_def get_size_def)

lemma prune_select_Inr:
  assumes "prune_select argsort n l ps = Inr (l', ps')"
  shows "\<exists>a d m td. activities l = Some a \<and> dists l = Some d \<and> mask_mat l = Some m \<and>
     is_square (length a) d \<and> is_square (length a) m \<and> td \<noteq> [] \<and>
     prune_scan n (map (\<lambda>v. v / n_obs l) a) (candidate_pairs argsort l a d m) []
       (normalised l a d) = (td, l') \<and>
     compensate_for_pruning td l' ps = Inr ps'"
proof -
  from assms obtain a where a: "activities l = Some a"
    by (auto simp: prune_select_def split: option.splits)
  from assms a obtain d where d: "dists l = Some d"
    by (auto simp: prune_select_def split: option.splits)
  from assms a d obtain m where m: "mask_mat l = Some m"
    by (auto simp: prune_select_def split: option.splits)
  obtain td l3 where scan: "prune_scan n (map (\<lambda>v. v / n_obs l) a)
      (candidate_pairs argsort l a d m) [] (normalised l a d) = (td, l3)"
    by fastforce
  from assms have sq: "is_square (length a) d \<and> is_square (length a) m"
    unfolding prune_select_def
    by (simp add: a d m Let_def is_square_map_map split: if_splits)
  from assms scan sq have "td \<noteq> [] \<and> l3 = l' \<and> compensate_for_pruning td l' ps = Inr ps'"
    unfolding prune_select_def
    by (simp add: a d m Let_def is_square_map_map candidate_pairs_def[symmetric]
        normalised_def[symmetric] del: map_map split: if_splits sum.splits)
  with a d m sq scan show ?thesis by blast
qed

lemma normalised_fields:
  "pruned_neurons (normalised l a d) = pruned_neurons l"
  "connections (normalised l a d) = connections l"
  "maxout (normalised l a d) = maxout l"
  "n_obs (normalised l a d) = n_obs l"
  "obs (normalised l a d) = obs l"
  "trg_size (normalised l a d) = trg_size l"
  "step_size (normalised l a d) = step_size l"
  "get_size (normalised l a d) = get_size l"
  "dists (normalised l a d) = Some (map (map (\<lambda>v. v / n_obs l)) d)"
  "activities (normalised l a d) = Some (map (\<lambda>v. v / n_obs l) a)"
  by (simp_all add: normalised_def get_size_def)

lemma length_triu: "length (triu m) = length m"
  by (simp add: triu_def)

lemma is_square_triu: "is_square n m \<Longrightarrow> is_square n (triu m)"
  by (auto simp: is_square_def triu_def list_all_iff dest!: set_zip_rightD)

lemma prune_scan_deleted_bound:
  assumes scan: "prune_scan n acts idxs td l = (td', l')"
    and b: "\<And>i j. (i, j) \<in> set idxs \<Longrightarrow> i < sz \<and> j < sz"
  shows "\<exists>new. td' = td @ new \<and> (\<forall>(s, d) \<in> set new. d < sz)"
proof -
  from prune_scan_deleted[OF scan] obtain new where
    new: "td' = td @ new" "\<forall>(s, d) \<in> set new. (s, d) \<in> set idxs \<or> (d, s) \<in> set idxs"
    by blast
  have "\<forall>(s, d) \<in> set new. d < sz"
    using new(2) b by blast
  with new(1) show ?thesis by blast
qed

lemma prune_select_returns:
  assumes arg: "is_argsort argsort"
    and st: "activities l = Some a" "dists l = Some d" "mask_mat l = Some m"
    and sq: "is_square (length a) d" "is_square (length a) m"
    and n: "0 < n"
    and un: "i < length a" "i \<notin> set (pruned_neurons l)"
    and conns: "\<forall>c \<in> set (connections l). conn_in_range (maxout l) (length a) ps c"
  shows "\<exists>l' ps'. prune_select argsort n l ps = Inr (l', ps')"
proof -
  let ?idxs = "candidate_pairs argsort l a d m"
  obtain td l3 where scan: "prune_scan n (map (\<lambda>v. v / n_obs l) a) ?idxs []
      (normalised l a d) = (td, l3)"
    by fastforce
  note props = candidate_pairs_props[OF arg sq, where l = l]
  have ne: "td \<noteq> []"
  proof
    assume e: "td = []"
    then have "int (length td) < n" using n by simp
    from prune_scan_exhausted[OF scan this props(2)[OF un(1) un(1)]]
    have "i \<in> set (pruned_neurons l3)" by simp
    moreover from prune_scan_deleted[OF scan] e
    have "pruned_neurons l3 = pruned_neurons (normalised l a d)" by auto
    ultimately show False using un(2) by (simp add: normalised_fields)
  qed
  from prune_scan_deleted_bound[OF scan, of "length a"] props(3)
  have bound: "\<forall>(s, d) \<in> set td. d < length a" by auto
  note fr = prune_scan_frame[OF scan]
  have "\<forall>c \<in> set (connections l3). conn_in_range (maxout l3) (length a) ps c"
    using conns fr by (simp add: normalised_fields)
  from compensate_sum_returns[OF this bound] obtain ps' where
    "compensate_for_pruning td l3 ps = Inr ps'"
    by (auto simp: compensate_for_pruning_def)
  moreover have pos: "0 < length a" using un(1) by (cases a) simp_all
  ultimately have "prune_select argsort n l ps = Inr (l3, ps')"
    using scan ne by (simp add: prune_select_eq[OF arg st sq pos])
  then show ?thesis by blast
qed

lemma length_of_square: "is_square n m \<Longrightarrow> length m = n"
  by (simp add: is_square_def)

lemma fold_max_zero: "list_all (\<lambda>x. x = 0) ys \<Longrightarrow> fold max ys (0::real) = 0"
  by (induction ys) simp_all

lemma np_max_zero:
  assumes "vs \<noteq> []" "list_all (\<lambda>x. x = 0) vs"
  shows "np_max (map abs vs) = Inr 0"
proof -
  from assms obtain y ys where vs: "vs = y # ys" by (cases vs) auto
  with assms(2) have "y = 0" "list_all (\<lambda>x. x = 0) (map abs ys)"
    by (simp_all add: list_all_iff)
  with vs show ?thesis by (simp add: np_max_def fold_max_zero)
qed

lemma selected_entries_zero:
  assumes p: "proper mat" and ne: "idxs \<noteq> []" and z: "list_all (slice_zero mat d) idxs"
  shows "\<exists>vs. selected_entries mat d idxs = Some (Inr vs) \<and> vs \<noteq> [] \<and>
           list_all (\<lambda>x. x = 0) vs"
proof (cases mat)
  case (Vec v)
  with z have "\<forall>i \<in> set idxs. i < length v \<and> v ! i = 0"
    by (simp add: slice_zero_def list_all_iff)
  with Vec ne show ?thesis
    by (simp add: take_idxs_def list_all_iff)
next
  case (Mat rows)
  from ne obtain i0 where i0: "i0 \<in> set idxs" by (cases idxs) auto
  from p Mat have rect: "\<forall>r \<in> set rows. length r = ncols rows" and nc: "0 < ncols rows"
    by (simp_all add: rectangular_def list_all_iff)
  from nc have rne: "rows \<noteq> []" by (cases rows) simp_all
  from z i0 Mat have dd: "d = 0 \<or> d = 1"
    by (auto simp: slice_zero_def list_all_iff)
  show ?thesis
  proof (cases "d = 0")
    case True
    with z Mat have a: "\<forall>i \<in> set idxs. i < length rows \<and> (\<forall>x \<in> set (rows ! i). x = 0)"
      by (simp add: slice_zero_def list_all_iff)
    then have sel: "selected_entries mat d idxs = Some (Inr (concat (map (\<lambda>i. rows ! i) idxs)))"
      using Mat True by (simp add: take_idxs_def list_all_iff)
    from a i0 have "i0 < length rows" by blast
    then have "rows ! i0 \<in> set rows" by (rule nth_mem)
    with rect have "length (rows ! i0) = ncols rows" by blast
    with nc have "rows ! i0 \<noteq> []" by auto
    with i0 have "concat (map (\<lambda>i. rows ! i) idxs) \<noteq> []" by auto
    moreover from a have "list_all (\<lambda>x. x = 0) (concat (map (\<lambda>i. rows ! i) idxs))"
      by (auto simp: list_all_iff)
    ultimately show ?thesis using sel by blast
  next
    case False
    with dd have d: "d = 1" by simp
    with z Mat have a: "\<forall>i \<in> set idxs. i < ncols rows \<and> (\<forall>r \<in> set rows. r ! i = 0)"
      by (simp add: slice_zero_def list_all_iff)
    then have sel: "selected_entries mat d idxs =
        Some (Inr (concat (map (\<lambda>r. map (\<lambda>i. r ! i) idxs) rows)))"
      using Mat d by (simp add: list_all_iff)
    from rne ne have "concat (map (\<lambda>r. map (\<lambda>i. r ! i) idxs) rows) \<noteq> []"
      by (cases rows) auto
    moreover from a have "list_all (\<lambda>x. x = 0) (concat (map (\<lambda>r. map (\<lambda>i. r ! i) idxs) rows))"
      by (auto simp: list_all_iff)
    ultimately show ?thesis using sel by blast
  qed
qed

lemma sanity_conns_zero:
  assumes "pruned \<noteq> []"
    and "\<forall>c \<in> set cs. conn_proper ps c \<and> conn_zero ps c (\<lambda>off. map (\<lambda>idx. idx + off) pruned)"
  shows "sanity_conns pruned ps cs eps 0 = Inr 0"
  using assms(2)
proof (induction cs arbitrary: eps)
  case Nil
  then show ?case by simp
next
  case (Cons c cs)
  from Cons.prems obtain mat off where
    m: "ps (mat_name c) = Some mat" "proper mat" "conn_offset c mat = Inr off"
    and z: "list_all (slice_zero mat (dim c)) (map (\<lambda>idx. idx + off) pruned)"
    by (auto simp: conn_proper_def conn_zero_def split: option.splits sum.splits)
  from assms(1) have "map (\<lambda>idx. idx + off) pruned \<noteq> []" by simp
  from selected_entries_zero[OF m(2) this z] obtain vs where
    vs: "selected_entries mat (dim c) (map (\<lambda>idx. idx + off) pruned) = Some (Inr vs)"
      "vs \<noteq> []" "list_all (\<lambda>x. x = 0) vs"
    by blast
  have "sanity_conns pruned ps (c # cs) eps 0 = sanity_conns pruned ps cs (Some 0) 0"
    using m vs(1) np_max_zero[OF vs(2,3)] by simp
  with Cons.IH[of "Some 0"] Cons.prems show ?case by simp
qed

lemma conn_zero_all:
  assumes "conn_proper ps c" "\<forall>j \<in> set pruned. conn_zero ps c (\<lambda>off. [j + off])"
  shows "conn_zero ps c (\<lambda>off. map (\<lambda>idx. idx + off) pruned)"
  using assms
  by (auto simp: conn_proper_def conn_zero_def list_all_iff split: option.splits sum.splits)

lemma target_idxs_plain:
  "\<not> (direction c = ''in'' \<and> mx) \<Longrightarrow> target_idxs mx c j = (\<lambda>off. [j + off])"
  by (auto simp: target_idxs_def fun_eq_iff)


subsection \<open>Evaluation of the concrete inputs\<close>

lemma is_argsort_stable_argsort: "is_argsort stable_argsort"
  unfolding is_argsort_def stable_argsort_def
proof (intro allI conjI)
  fix v :: "real list"
  show "mset (sort_key (\<lambda>k. v ! k) [0..<length v]) = mset [0..<length v]"
    by (rule mset_sort)
  show "sorted (map (\<lambda>k. v ! k) (sort_key (\<lambda>k. v ! k) [0..<length v]))"
    by (rule sorted_sort_key)
qed

lemma example_prune_init: "prune_init example_layer = Inr example_initialised"
  by (simp add: prune_init_def initialize_mask_def derive_step_size_def get_size_def
      example_layer_def example_new_def new_layer_def triu_def INF_DIST_def upt_rec
      example_initialised_def)

lemma example_sort:
  "stable_argsort [10000, 10000, 20001 / 2, 0, 10000, 20001 / 2, 1 / 2, 1 / 2, 10000]
    = [3, 6, 7, 0, 1, 4, 8, 2, 5]"
  by (simp add: stable_argsort_def upt_rec)

lemma example_n_to_delete:
  "count_unpruned_neurons example_initialised = Inr 3"
  "n_to_delete_of example_initialised = Inr 1"
  by (simp_all add: n_to_delete_of_def count_unpruned_neurons_def get_size_def
      example_initialised_def example_layer_def example_new_def new_layer_def)


lemma example_prune:
  "prune stable_argsort example_layer example_params = Inr (example_pruned, example_params_pruned)"
  apply (simp add: prune_def example_prune_init example_n_to_delete)
  apply (simp add: example_initialised_def example_layer_def example_new_def new_layer_def)
  apply (simp add: prune_select_def is_square_def search_mat_of_def mat_add_def np_multiply_def
       get_activity_discounts_def Let_def example_sort unravel_index_def)
  apply (simp add: compensate_for_pruning_def example_conn_def compensate_conn_def conn_offset_def
      example_params_def mask_out_def INF_DIST_def upt_rec)
  apply (simp add: example_pruned_def example_layer_def example_new_def new_layer_def
      example_conn_def example_params_pruned_def)
  done

lemma stale_sort:
  "stable_argsort [10000, 10000, 20001 / 2, 10000, 10000, 20001 / 2, 20001 / 2, 1 / 2, 10000]
    = [7, 0, 1, 3, 4, 8, 2, 5, 6]"
  by (simp add: stable_argsort_def upt_rec)

lemma stale_prune:
  "prune stable_argsort stale_layer stale_params =
     Inr (stale_layer\<lparr>dists := Some [[0, 0, 1], [0, 0, 1], [1, 1, 0]],
            activities := Some [5 / 2, 5 / 2, 1 / 2],
            mask_mat := Some [[10000, 10000, 10000], [10000, 10000, 10000],
                              [10000, 10000, 10000]],
            pruned_neurons := [0, 2]\<rparr>,
          [''W'' \<mapsto> Mat [[1 / 2, 0], [3, 4], [0, 0]]])"
  unfolding prune_def
  apply (simp add: prune_init_def n_to_delete_of_def count_unpruned_neurons_def get_size_def
      stale_layer_def)
  apply (simp add: prune_select_def is_square_def search_mat_of_def mat_add_def np_multiply_def
       get_activity_discounts_def Let_def stale_sort unravel_index_def)
  apply (simp add: compensate_for_pruning_def example_conn_def compensate_conn_def conn_offset_def
      stale_params_def mask_out_def INF_DIST_def upt_rec)
  done

lemma maxout_sort: "stable_argsort [10000, 10001, 1, 10000] = [2, 0, 3, 1]"
  by (simp add: stable_argsort_def upt_rec)

lemma unravel_index_2: "unravel_index (Suc (Suc 0)) k = (k div 2, k mod 2)"
  by (simp add: unravel_index_def numeral_2_eq_2)

lemma maxout_prune:
  "prune stable_argsort maxout_layer maxout_params =
     Inr (maxout_layer\<lparr>mask_mat := Some [[10000, 10000], [10000, 10000]],
            step_size := Some 2, pruned_neurons := [1]\<rparr>,
          maxout_params_pruned)"
  unfolding prune_def
  apply (simp add: prune_init_def initialize_mask_def derive_step_size_def triu_def upt_rec
      n_to_delete_of_def count_unpruned_neurons_def get_size_def
      maxout_layer_def new_layer_def INF_DIST_def)
  apply (simp add: prune_select_def is_square_def search_mat_of_def mat_add_def np_multiply_def
       get_activity_discounts_def Let_def maxout_sort unravel_index_2)
  apply (simp add: compensate_for_pruning_def maxout_conn_def compensate_conn_def conn_offset_def
      maxout_params_def maxout_params_pruned_def mask_out_def INF_DIST_def upt_rec)
  done

text \<open>
  The sanity check does not follow the maxout addressing of the compensation: for an
  inbound connection of a maxout layer it reads the index of the neuron, not its two
  sub-indices. Right after the first \<open>prune\<close> of the maxout example it reports 6.
\<close>

lemma sanity_check_maxout_example:
  "sanity_after_prune stable_argsort maxout_layer maxout_params = Inr 6"
  unfolding sanity_after_prune_def maxout_prune
  by (simp add: sanity_check_def maxout_layer_def new_layer_def maxout_conn_def
      maxout_params_pruned_def conn_offset_def np_max_def)

lemma example_layer_registered:
  "register_activities example_batch example_new = Inr example_layer"
  by (simp add: register_activities_def example_batch_def example_new_def example_layer_def
      new_layer_def transpose_np_def dists_sq_of_def dot_def sq_norm_def upt_rec)

subsection \<open>The accumulator in exact arithmetic\<close>

lemma dot_commute: "dot u v = dot v u"
proof -
  have "map (\<lambda>(a, b). a * b) (zip u v) = map (\<lambda>(a, b). a * b) (zip v u)"
    by (induction u v rule: list_induct2') (simp_all add: mult.commute)
  then show ?thesis by (simp add: dot_def)
qed

lemma sq_dist:
  "length u = length v \<Longrightarrow>
   dot u v * (- 2) + sq_norm u + sq_norm v = sum_list (map (\<lambda>(a, b). (a - b) ^ 2) (zip u v))"
  by (induction u v rule: list_induct2) (simp_all add: dot_def sq_norm_def power2_diff)

lemma sq_dist_nonneg:
  assumes "length u = length v"
  shows "0 \<le> dot u v * (- 2) + sq_norm u + sq_norm v"
proof -
  have "0 \<le> sum_list (map (\<lambda>(a, b). (a - b) ^ 2) (zip u v))"
    by (rule sum_list_nonneg) auto
  with sq_dist[OF assms] show ?thesis by simp
qed

lemma transpose_np_rows: "r \<in> set (transpose_np m) \<Longrightarrow> length r = length m"
  by (auto simp: transpose_np_def)

lemma sym_nonneg_dists_sq: "sym_nonneg (dists_sq_of (transpose_np activity))"
proof -
  let ?x = "transpose_np activity"
  have sq: "is_square (length ?x) (dists_sq_of ?x)"
    by (simp add: is_square_def dists_sq_of_def list_all_iff)
  have "dists_sq_of ?x ! i ! j = dists_sq_of ?x ! j ! i \<and> 0 \<le> dists_sq_of ?x ! i ! j"
    if "i < length ?x" "j < length ?x" for i j
  proof -
    from that have "length (?x ! i) = length (?x ! j)"
      using transpose_np_rows[of "?x ! i" activity] transpose_np_rows[of "?x ! j" activity]
      by simp
    then have nn: "0 \<le> dot (?x ! i) (?x ! j) * (- 2) + sq_norm (?x ! i) + sq_norm (?x ! j)"
      by (rule sq_dist_nonneg)
    have e: "dists_sq_of ?x ! a ! b =
        dot (?x ! a) (?x ! b) * (- 2) + sq_norm (?x ! a) + sq_norm (?x ! b)"
      if "a < length ?x" "b < length ?x" for a b
      using that unfolding dists_sq_of_def by simp
    have "dot (?x ! i) (?x ! j) * (- 2) + sq_norm (?x ! i) + sq_norm (?x ! j) =
        dot (?x ! j) (?x ! i) * (- 2) + sq_norm (?x ! j) + sq_norm (?x ! i)"
      using dot_commute[of "?x ! i" "?x ! j"] by simp
    with nn e[OF that] e[OF that(2,1)] show ?thesis by simp
  qed
  with sq show ?thesis by (simp add: sym_nonneg_def dists_sq_of_def)
qed

lemma mat_add_nth:
  assumes "is_square n a" "is_square n b" "i < n" "j < n"
  shows "mat_add a b ! i ! j = a ! i ! j + b ! i ! j"
proof -
  from assms have "length (a ! i) = n" "length (b ! i) = n" "length a = n" "length b = n"
    by (simp_all add: is_square_def list_all_iff)
  with assms(3,4) show ?thesis by (simp add: mat_add_def)
qed

lemma sym_nonneg_mat_add:
  assumes "sym_nonneg a" "sym_nonneg b" "same_shape a b"
  shows "sym_nonneg (mat_add a b)"
proof -
  from assms(3) have len: "length b = length a"
    by (metis length_map same_shape_def)
  let ?n = "length a"
  from assms len have sa: "is_square ?n a" and sb: "is_square ?n b"
    by (simp_all add: sym_nonneg_def)
  have sq: "is_square ?n (mat_add a b)"
    unfolding mat_add_def by (rule is_square_zip_map[OF sa sb])
  then have l: "length (mat_add a b) = ?n" by (simp add: is_square_def)
  have "mat_add a b ! i ! j = mat_add a b ! j ! i \<and> 0 \<le> mat_add a b ! i ! j"
    if "i < ?n" "j < ?n" for i j
    using that assms(1,2) len
    by (simp add: mat_add_nth[OF sa sb] sym_nonneg_def)
  with sq l show ?thesis by (simp add: sym_nonneg_def)
qed

lemma register_activities_sym_nonneg:
  assumes "register_activities activity l = Inr l'"
    and "case dists l of None \<Rightarrow> True | Some d \<Rightarrow> sym_nonneg d"
  shows "\<exists>d'. dists l' = Some d' \<and> sym_nonneg d'"
proof (cases "dists l")
  case None
  with assms(1) show ?thesis
    by (auto simp: register_activities_def Let_def sym_nonneg_dists_sq)
next
  case (Some d)
  with assms(1) have sh: "same_shape d (dists_sq_of (transpose_np activity))"
    and d': "dists l' = Some (mat_add d (dists_sq_of (transpose_np activity)))"
    by (auto simp: register_activities_def Let_def split: if_splits option.splits)
  from assms(2) Some have "sym_nonneg d" by simp
  from sym_nonneg_mat_add[OF this sym_nonneg_dists_sq sh] d' show ?thesis by simp
qed

lemma register_all_sym_nonneg:
  assumes "register_all batches l = Inr l'" "batches \<noteq> []"
    and "case dists l of None \<Rightarrow> True | Some d \<Rightarrow> sym_nonneg d"
  shows "\<exists>d'. dists l' = Some d' \<and> sym_nonneg d'"
  using assms
proof (induction batches arbitrary: l)
  case Nil
  then show ?case by simp
next
  case (Cons b bs)
  from Cons.prems(1) obtain l1 where
    r: "register_activities b l = Inr l1" "register_all bs l1 = Inr l'"
    by (auto split: sum.splits)
  from register_activities_sym_nonneg[OF r(1) Cons.prems(3)] obtain d1 where
    d1: "dists l1 = Some d1" "sym_nonneg d1" by blast
  show ?case
  proof (cases bs)
    case Nil
    with r(2) d1 show ?thesis by simp
  next
    case (Cons c cs)
    with Cons.IH[OF r(2)] d1 show ?thesis by simp
  qed
qed

lemma sym_nonneg_normalised:
  assumes "sym_nonneg d" "0 \<le> c"
  shows "sym_nonneg (map (map (\<lambda>v. v / c)) d)"
proof -
  have "length (d ! i) = length d" if "i < length d" for i
    using assms(1) that by (simp add: sym_nonneg_def is_square_def list_all_iff)
  with assms show ?thesis
    by (simp add: sym_nonneg_def is_square_map_map)
qed

section \<open>The claims\<close>

subsection \<open>C1: what the sum strategy zeroes\<close>



subsection \<open>C2: the sanity check after a prune\<close>

text \<open>
  C2, as stated, fails. In the layer \<open>stale_layer\<close> neuron 0 was pruned by an earlier
  call and a training step has since moved its row of \<open>W\<close> to \<open>[1 / 2, 0]\<close>. The next
  \<open>prune\<close> prunes neuron 2 with the sum strategy, and \<open>sanity_check\<close>, which reads the
  rows of all the pruned neurons, reports \<open>1 / 2\<close> right after it.
\<close>

theorem C2_counterexample:
  "pruned_after_prune stable_argsort stale_layer stale_params = Inr [0, 2] \<and>
   sanity_after_prune stable_argsort stale_layer stale_params = Inr (1 / 2)"
  unfolding pruned_after_prune_def sanity_after_prune_def stale_prune
  by (simp add: sanity_check_def stale_layer_def example_conn_def conn_offset_def
      take_idxs_def np_max_def)

text \<open>
  C2, amended: let every connection of the layer name a proper array of the store and
  one of its axes, let no connection be an inbound connection of a maxout layer, and
  let the slices of the neurons pruned by earlier calls be zero in the store. Then
  right after a \<open>prune\<close> that has pruned at least one neuron, \<open>sanity_check\<close> returns
  and reports 0.
\<close>

theorem C2_sanity_check_zero:
  assumes "prune argsort l ps = Inr (l', ps')" "pruned_neurons l' \<noteq> pruned_neurons l"
    and "\<forall>c \<in> set (connections l). conn_proper ps c \<and> \<not> (direction c = ''in'' \<and> maxout l)"
    and "\<forall>c \<in> set (connections l). \<forall>j \<in> set (pruned_neurons l).
           conn_zero ps c (\<lambda>offset. [j + offset])"
  shows "sanity_check l' ps' = Inr 0"
proof -
  from assms(1) obtain l1 where init: "prune_init l = Inr l1"
    by (auto simp: prune_def split: sum.splits)
  note fr = prune_init_frame[OF init]
  from assms(1) init obtain n where n: "n_to_delete_of l1 = Inr n"
    by (auto simp: prune_def split: sum.splits)
  have pos: "\<not> n \<le> 0"
  proof
    assume "n \<le> 0"
    with assms(1) init n have "l' = reset l1" by (simp add: prune_def)
    with fr assms(2) show False by (simp add: reset_def)
  qed
  with assms(1) init n have sel: "prune_select argsort n l1 ps = Inr (l', ps')"
    by (simp add: prune_def)
  from prune_select_Inr[OF sel] obtain a d m td where
    scan: "prune_scan n (map (\<lambda>v. v / n_obs l1) a) (candidate_pairs argsort l1 a d m) []
       (normalised l1 a d) = (td, l')"
    and comp: "compensate_for_pruning_sum td l' ps = Inr ps'"
    by (auto simp: compensate_for_pruning_def)
  note sf = prune_scan_frame[OF scan]
  have conns: "connections l' = connections l" and mx: "maxout l' = maxout l"
    using sf fr by (simp_all add: normalised_fields)
  from prune_scan_deleted[OF scan] have
    pn: "pruned_neurons l' = pruned_neurons l @ map snd td"
    using fr by (auto simp: normalised_fields)
  with assms(2) have ne: "pruned_neurons l' \<noteq> []" by auto
  note le = compensate_sum_store_le[OF comp]
  have "conn_proper ps' c \<and>
        conn_zero ps' c (\<lambda>off. map (\<lambda>idx. idx + off) (pruned_neurons l'))"
    if c: "c \<in> set (connections l)" for c
  proof
    from assms(3) c have cp: "conn_proper ps c"
      and plain: "\<not> (direction c = ''in'' \<and> maxout l')"
      using mx by simp_all
    show cp': "conn_proper ps' c" by (rule store_le_conn_proper[OF le cp])
    have "conn_zero ps' c (\<lambda>off. [j + off])" if j: "j \<in> set (pruned_neurons l')" for j
    proof (cases "j \<in> set (pruned_neurons l)")
      case True
      with assms(4) c have "conn_zero ps c (\<lambda>off. [j + off])" by blast
      from store_le_conn_zero[OF le cp this] show ?thesis .
    next
      case False
      with j pn obtain i where "(i, j) \<in> set td" by auto
      from compensate_sum_hits[OF comp this _ cp] c conns
      have "conn_zero ps' c (target_idxs (maxout l') c j)" by simp
      then show ?thesis by (simp add: target_idxs_plain[OF plain])
    qed
    then show "conn_zero ps' c (\<lambda>off. map (\<lambda>idx. idx + off) (pruned_neurons l'))"
      by (intro conn_zero_all[OF cp']) blast
  qed
  then show ?thesis
    unfolding sanity_check_def conns
    by (intro sanity_conns_zero[OF ne]) blast
qed

theorem C2_sanity_check_zero_witness:
  "sanity_check example_pruned example_params_pruned = Inr 0"
proof (rule C2_sanity_check_zero[OF example_prune])
  show "pruned_neurons example_pruned \<noteq> pruned_neurons example_layer"
    by (simp add: example_pruned_def example_layer_def example_new_def new_layer_def)
  show "\<forall>c \<in> set (connections example_layer).
          conn_proper example_params c \<and> \<not> (direction c = ''in'' \<and> maxout example_layer)"
    by (simp add: example_layer_def example_new_def new_layer_def example_conn_def
        conn_proper_def example_params_def rectangular_def conn_offset_def)
  show "\<forall>c \<in> set (connections example_layer). \<forall>j \<in> set (pruned_neurons example_layer).
           conn_zero example_params c (\<lambda>offset. [j + offset])"
    by (simp add: example_layer_def example_new_def new_layer_def)
qed

subsection \<open>C3: the step size of the first call\<close>

lemma floor_div_ceiling:
  fixes a b :: int
  assumes "b \<noteq> 0"
  shows "a div b + 1 =
           (if b dvd a then \<lceil>real_of_int a / real_of_int b\<rceil> + 1
            else \<lceil>real_of_int a / real_of_int b\<rceil>)"
proof -
  have c: "\<lceil>real_of_int a / real_of_int b\<rceil> = - ((- a) div b)"
    by (rule ceiling_divide_eq_div)
  show ?thesis
  proof (cases "b dvd a")
    case True
    then have "(- a) div b = - (a div b)" by (simp add: dvd_neg_div)
    with True c show ?thesis by simp
  next
    case False
    then have "a mod b \<noteq> 0" by (simp add: dvd_eq_mod_eq_0)
    with assms have "(- a) div b = - (a div b) - 1"
      by (simp add: zdiv_zminus1_eq_if)
    with False c show ?thesis by simp
  qed
qed

text \<open>
  C3, as stated, fails: for a layer of 10 neurons, target size 8 and one step the first
  \<open>prune\<close> derives the step size 3, and the ceiling of \<open>(10 - 8) / 1\<close> is 2.
\<close>

theorem C3_counterexample:
  "first_step_size (observed_layer 10 8 1) = Some 3 \<and>
   \<lceil>real_of_int (10 - 8) / real_of_int 1\<rceil> = (2 :: int)"
  by (simp add: first_step_size_def observed_layer_def new_layer_def prune_init_def
      initialize_mask_def derive_step_size_def get_size_def triu_def)

text \<open>
  C3, amended: on the first \<open>prune\<close> of a layer (no mask yet, no neuron pruned) with
  accumulated distances and a number of steps other than zero, the lazy initialisation
  returns, and the step size is the floor of (unpruned count - target size) / steps,
  plus one. That is the ceiling of the quotient when the steps do not divide the
  difference, and the ceiling plus one when they do.
\<close>

theorem C3_step_size_floor_plus_one:
  assumes "mask_mat l = None" "pruned_neurons l = []" "dists l = Some d" "n_steps l \<noteq> 0"
  shows "\<exists>l1 cnt. prune_init l = Inr l1 \<and> count_unpruned_neurons l1 = Inr cnt \<and>
           cnt = int (length d) \<and>
           step_size l1 =
             Some (\<lfloor>real_of_int (cnt - trg_size l) / real_of_int (n_steps l)\<rfloor> + 1) \<and>
           step_size l1 =
             Some (if n_steps l dvd cnt - trg_size l
                   then \<lceil>real_of_int (cnt - trg_size l) / real_of_int (n_steps l)\<rceil> + 1
                   else \<lceil>real_of_int (cnt - trg_size l) / real_of_int (n_steps l)\<rceil>)"
proof -
  let ?l1 = "l\<lparr>mask_mat := Some (triu (map (map (\<lambda>_. INF_DIST * 1)) d)),
               step_size := Some ((int (length d) - trg_size l) div n_steps l + 1)\<rparr>"
  have init: "prune_init l = Inr ?l1"
    using assms
    by (simp add: prune_init_def initialize_mask_def derive_step_size_def get_size_def
        triu_def)
  have cnt: "count_unpruned_neurons ?l1 = Inr (int (length d))"
    using assms by (simp add: count_unpruned_neurons_def get_size_def triu_def)
  have fl: "\<lfloor>real_of_int (int (length d) - trg_size l) / real_of_int (n_steps l)\<rfloor>
              = (int (length d) - trg_size l) div n_steps l"
    by (rule floor_divide_of_int_eq)
  show ?thesis
    using init cnt fl floor_div_ceiling[OF assms(4), of "int (length d) - trg_size l"]
    by simp
qed

theorem C3_step_size_witness:
  "\<exists>l1 cnt. prune_init (observed_layer 4 1 2) = Inr l1 \<and>
     count_unpruned_neurons l1 = Inr cnt \<and> cnt = 4 \<and> step_size l1 = Some 2"
proof -
  have h: "mask_mat (observed_layer 4 1 2) = None" "pruned_neurons (observed_layer 4 1 2) = []"
    "dists (observed_layer 4 1 2) = Some (replicate 4 (replicate 4 0))"
    "n_steps (observed_layer 4 1 2) \<noteq> 0" "trg_size (observed_layer 4 1 2) = 1"
    "n_steps (observed_layer 4 1 2) = 2"
    by (simp_all add: observed_layer_def new_layer_def)
  have "\<lfloor>real_of_int (4 - 1) / real_of_int 2\<rfloor> + 1 = (2 :: int)"
    by (simp add: floor_divide_of_int_eq[of 3 2, simplified])
  with C3_step_size_floor_plus_one[OF h(1,2,3,4)] h(5,6) show ?thesis
    by (auto simp del: of_int_diff)
qed

subsection \<open>C4: ten neurons, target eight, one step\<close>

text \<open>
  C4: for a layer of 10 neurons with target size 8 and one pruning step, no neuron
  pruned yet, whose connections address the 10 neurons inside proper arrays, the first
  \<open>prune\<close> derives the step size 3, computes \<open>n_to_delete = min (10 - 8) 3 = 2\<close>,
  returns, and has pruned exactly two (distinct) neurons: 8 are left unpruned. This
  holds for every order of equal scores that \<open>argsort\<close> may choose.
\<close>

theorem C4_ten_eight_one:
  assumes "is_argsort argsort"
    and "mask_mat l = None" "pruned_neurons l = []"
    and "dists l = Some d" "is_square 10 d" "activities l = Some a" "length a = 10"
    and "trg_size l = 8" "n_steps l = 1"
    and "\<forall>c \<in> set (connections l). conn_in_range (maxout l) 10 ps c"
  shows "\<exists>l1 l' ps'. prune_init l = Inr l1 \<and> step_size l1 = Some 3 \<and>
           count_unpruned_neurons l1 = Inr 10 \<and> n_to_delete_of l1 = Inr 2 \<and>
           prune argsort l ps = Inr (l', ps') \<and>
           length (pruned_neurons l') = 2 \<and> distinct (pruned_neurons l') \<and>
           count_unpruned_neurons l' = Inr 8"
proof -
  let ?m = "triu (map (map (\<lambda>_. INF_DIST * 1)) d)"
  let ?l1 = "l\<lparr>mask_mat := Some ?m, step_size := Some 3\<rparr>"
  have len: "length d = 10" using assms(5) by (simp add: is_square_def)
  have init: "prune_init l = Inr ?l1"
    using assms(2,4,8,9) len
    by (simp add: prune_init_def initialize_mask_def derive_step_size_def get_size_def
        length_triu)
  have cnt: "count_unpruned_neurons ?l1 = Inr 10"
    using assms(3) len by (simp add: count_unpruned_neurons_def get_size_def length_triu)
  have n: "n_to_delete_of ?l1 = Inr 2"
    using cnt assms(8) by (simp add: n_to_delete_of_def)
  have sqm: "is_square (length a) ?m"
    using assms(5,7) by (intro is_square_triu) (simp add: is_square_map_map)
  have sqd: "is_square (length a) d" using assms(5,7) by simp
  have "\<exists>l' ps'. prune_select argsort 2 ?l1 ps = Inr (l', ps')"
  proof (rule prune_select_returns[OF assms(1), where a = a and d = d and m = ?m and i = 0])
    show "is_square (length a) d" by (rule sqd)
    show "is_square (length a) ?m" by (rule sqm)
  qed (use assms in simp_all)
  then obtain l' ps' where sel: "prune_select argsort 2 ?l1 ps = Inr (l', ps')" by blast
  with init n have pr: "prune argsort l ps = Inr (l', ps')" by (simp add: prune_def)
  from prune_select_Inr[OF sel] obtain a' d' m' td where
    st: "activities ?l1 = Some a'" "dists ?l1 = Some d'" "mask_mat ?l1 = Some m'"
    and sq: "is_square (length a') d'" "is_square (length a') m'"
    and scan: "prune_scan 2 (map (\<lambda>v. v / n_obs ?l1) a') (candidate_pairs argsort ?l1 a' d' m') []
       (normalised ?l1 a' d') = (td, l')"
    by blast
  from st assms(6,7) have la: "length a' = 10" by simp
  note props = candidate_pairs_props[OF assms(1) sq, where l = ?l1]
  have full: "int (length td) = 2"
    by (rule prune_scan_full[OF scan, of 10])
      (use assms(3) props(2) la in \<open>simp_all add: normalised_fields\<close>)
  from prune_scan_deleted[OF scan] assms(3) have
    pn: "pruned_neurons l' = map snd td" "distinct (map snd td)"
    by (auto simp: normalised_fields)
  have "get_size l' = get_size ?l1"
    using prune_scan_frame[OF scan] by (simp add: normalised_fields)
  also have "\<dots> = Inr 10"
    using len by (simp add: get_size_def length_triu)
  finally have gs: "get_size l' = Inr 10" .
  have "count_unpruned_neurons l' = Inr 8"
    using gs pn full by (simp add: count_unpruned_neurons_def)
  with init cnt n pr pn full show ?thesis
    by (intro exI[of _ ?l1] exI[of _ l'] exI[of _ ps']) simp
qed

theorem C4_ten_eight_one_witness:
  "\<exists>l1 l' ps'. prune_init (observed_layer 10 8 1) = Inr l1 \<and> step_size l1 = Some 3 \<and>
     count_unpruned_neurons l1 = Inr 10 \<and> n_to_delete_of l1 = Inr 2 \<and>
     prune stable_argsort (observed_layer 10 8 1) Map.empty = Inr (l', ps') \<and>
     length (pruned_neurons l') = 2 \<and> distinct (pruned_neurons l') \<and>
     count_unpruned_neurons l' = Inr 8"
proof (rule C4_ten_eight_one[OF is_argsort_stable_argsort])
  show "mask_mat (observed_layer 10 8 1) = None"
    "pruned_neurons (observed_layer 10 8 1) = []"
    "dists (observed_layer 10 8 1) = Some (replicate 10 (replicate 10 0))"
    "activities (observed_layer 10 8 1) = Some (replicate 10 0)"
    "trg_size (observed_layer 10 8 1) = 8" "n_steps (observed_layer 10 8 1) = 1"
    "\<forall>c \<in> set (connections (observed_layer 10 8 1)).
       conn_in_range (maxout (observed_layer 10 8 1)) 10 Map.empty c"
    by (simp_all add: observed_layer_def new_layer_def)
  show "is_square 10 (replicate 10 (replicate 10 (0::real)))"
    by (simp add: is_square_def list_all_iff)
  show "length (replicate 10 (0::real)) = 10" by simp
qed

subsection \<open>C5: the count of unpruned neurons\<close>

text \<open>
  C5: a \<open>prune\<close> that reaches the selection loop (\<open>n_to_delete > 0\<close>) and returns has
  appended \<open>k > 0\<close> neurons to the pruned ones; they are pairwise distinct and were not
  pruned before, and \<open>count_unpruned_neurons\<close> has decreased by exactly \<open>k\<close>. Either
  \<open>k = n_to_delete\<close>, or \<open>k < n_to_delete\<close> and the loop has run out of candidates:
  every pair of neurons then has a pruned member. That case needs a negative target
  size: the scan also visits the pair of a neuron with itself, so with a target size
  of at least 0 the loop always finds \<open>n_to_delete\<close> neurons.
\<close>

theorem C5_count_decreases_by_deleted:
  assumes "is_argsort argsort" "prune_init l = Inr l1"
    "count_unpruned_neurons l1 = Inr cnt" "n_to_delete_of l1 = Inr n" "0 < n"
    "prune argsort l ps = Inr (l', ps')"
  shows "\<exists>deleted sz. pruned_neurons l' = pruned_neurons l @ deleted \<and>
           distinct deleted \<and> set deleted \<inter> set (pruned_neurons l) = {} \<and>
           count_unpruned_neurons l' = Inr (cnt - int (length deleted)) \<and>
           0 < length deleted \<and> int (length deleted) \<le> n \<and>
           get_size l' = Inr (int sz) \<and>
           (int (length deleted) = n \<or>
            int (length deleted) < n \<and>
            (\<forall>i j. i < sz \<and> j < sz \<longrightarrow>
               i \<in> set (pruned_neurons l') \<or> j \<in> set (pruned_neurons l'))) \<and>
           (0 \<le> trg_size l \<longrightarrow> int (length deleted) = n)"
proof -
  note fr = prune_init_frame[OF assms(2)]
  from assms(2,4,5,6) have sel: "prune_select argsort n l1 ps = Inr (l', ps')"
    by (simp add: prune_def)
  from prune_select_Inr[OF sel] obtain a d m td where
    st: "activities l1 = Some a" "dists l1 = Some d" "mask_mat l1 = Some m"
    and sq: "is_square (length a) d" "is_square (length a) m"
    and ne: "td \<noteq> []"
    and scan: "prune_scan n (map (\<lambda>v. v / n_obs l1) a) (candidate_pairs argsort l1 a d m) []
       (normalised l1 a d) = (td, l')"
    by blast
  note props = candidate_pairs_props[OF assms(1) sq, where l = l1]
  from prune_scan_deleted[OF scan] obtain new where
    new: "td = new" "pruned_neurons l' = pruned_neurons l1 @ map snd new"
      "distinct (map snd new)" "set (map snd new) \<inter> set (pruned_neurons l1) = {}"
    by (auto simp: normalised_fields)
  have "get_size l' = get_size l1"
    using prune_scan_frame[OF scan] by (simp add: normalised_fields)
  also have "\<dots> = Inr (int (length a))"
    using st(3) length_of_square[OF sq(2)] by (simp add: get_size_def)
  finally have gs: "get_size l' = Inr (int (length a))" .
  have gs1: "get_size l1 = Inr (int (length a))"
    using st(3) length_of_square[OF sq(2)] by (simp add: get_size_def)
  with assms(3) have cnt: "cnt = int (length a) - int (length (pruned_neurons l1))"
    by (simp add: count_unpruned_neurons_def)
  have c': "count_unpruned_neurons l' = Inr (cnt - int (length (map snd new)))"
    using gs cnt new(2) by (simp add: count_unpruned_neurons_def)
  have le: "int (length td) \<le> n"
    using prune_scan_length[OF scan] assms(5) by simp
  have ex: "i \<in> set (pruned_neurons l') \<or> j \<in> set (pruned_neurons l')"
    if "int (length td) < n" "i < length a" "j < length a" for i j
    using prune_scan_exhausted[OF scan that(1) props(2)[OF that(2,3)]] .
  show ?thesis
  proof (intro exI[of _ "map snd new"] exI[of _ "length a"] conjI)
    show "pruned_neurons l' = pruned_neurons l @ map snd new" using new(2) fr by simp
    show "distinct (map snd new)" by (rule new(3))
    show "set (map snd new) \<inter> set (pruned_neurons l) = {}" using new(4) fr by simp
    show "count_unpruned_neurons l' = Inr (cnt - int (length (map snd new)))" by (rule c')
    show "0 < length (map snd new)" using ne new(1) by simp
    show "int (length (map snd new)) \<le> n" using le new(1) by simp
    show "get_size l' = Inr (int (length a))" by (rule gs)
    show "int (length (map snd new)) = n \<or>
            int (length (map snd new)) < n \<and>
            (\<forall>i j. i < length a \<and> j < length a \<longrightarrow>
               i \<in> set (pruned_neurons l') \<or> j \<in> set (pruned_neurons l'))"
      using le ex new(1) by (cases "int (length td) = n") auto
    show "0 \<le> trg_size l \<longrightarrow> int (length (map snd new)) = n"
    proof
      assume trg: "0 \<le> trg_size l"
      from assms(3,4) have "n \<le> cnt - trg_size l1"
        by (auto simp: n_to_delete_of_def split: option.splits)
      with trg fr cnt have "n \<le> int (length a) - int (length (pruned_neurons l1))"
        by simp
      then have "int (length td) = n"
        by (intro prune_scan_full[OF scan assms(5), of "length a"])
          (simp_all add: normalised_fields props(2))
      with new(1) show "int (length (map snd new)) = n" by simp
    qed
  qed
qed

theorem C5_count_decreases_witness:
  "pruned_neurons example_pruned = pruned_neurons example_layer @ [0] \<and>
   count_unpruned_neurons example_initialised = Inr 3 \<and>
   count_unpruned_neurons example_pruned = Inr 2"
proof -
  have "0 < (1::int)" by simp
  from C5_count_decreases_by_deleted[OF is_argsort_stable_argsort example_prune_init
      example_n_to_delete(1) example_n_to_delete(2) this example_prune]
  obtain deleted where
    d: "pruned_neurons example_pruned = pruned_neurons example_layer @ deleted"
      "count_unpruned_neurons example_pruned = Inr (3 - int (length deleted))"
    by blast
  from d(1) have "deleted = [0]"
    by (simp add: example_pruned_def example_layer_def example_new_def new_layer_def)
  with d example_n_to_delete(1) show ?thesis by simp
qed

subsection \<open>C6: nothing left to delete\<close>

text \<open>
  C6: if \<open>n_to_delete = min (unpruned count - target size) step_size\<close> is at most 0
  after the lazy initialisation, \<open>prune\<close> returns the reset layer and the weight store
  it was given: the pruned neurons are the same, and the distance matrix, the
  activity sums, the observation count and the stored observations are reset.
\<close>

theorem C6_no_deletion_resets:
  assumes "prune_init l = Inr l1" "count_unpruned_neurons l1 = Inr cnt"
    "step_size l1 = Some st" "min (cnt - trg_size l1) st \<le> 0"
  shows "prune argsort l ps = Inr (reset l1, ps) \<and>
         pruned_neurons (reset l1) = pruned_neurons l \<and>
         dists (reset l1) = None \<and> activities (reset l1) = None \<and>
         n_obs (reset l1) = 0 \<and> obs (reset l1) = []"
proof -
  have "n_to_delete_of l1 = Inr (min (cnt - trg_size l1) st)"
    using assms(2,3) by (simp add: n_to_delete_of_def)
  with assms(1,4) have "prune argsort l ps = Inr (reset l1, ps)"
    by (simp add: prune_def)
  with prune_init_frame[OF assms(1)] show ?thesis
    by (simp add: reset_def)
qed

theorem C6_no_deletion_witness:
  "\<exists>l1. prune_init (observed_layer 3 3 1) = Inr l1 \<and>
     prune stable_argsort (observed_layer 3 3 1) Map.empty = Inr (reset l1, Map.empty) \<and>
     pruned_neurons (reset l1) = [] \<and> dists (reset l1) = None \<and>
     activities (reset l1) = None \<and> n_obs (reset l1) = 0 \<and> obs (reset l1) = []"
proof -
  let ?l1 = "(observed_layer 3 3 1)
      \<lparr>mask_mat := Some [[10000, 10000, 10000], [0, 10000, 10000], [0, 0, 10000]],
       step_size := Some 1\<rparr>"
  have init: "prune_init (observed_layer 3 3 1) = Inr ?l1"
    by (simp add: prune_init_def initialize_mask_def derive_step_size_def get_size_def
        observed_layer_def new_layer_def triu_def INF_DIST_def upt_rec numeral_3_eq_3)
  have cnt: "count_unpruned_neurons ?l1 = Inr 3"
    by (simp add: count_unpruned_neurons_def get_size_def observed_layer_def new_layer_def)
  have st: "step_size ?l1 = Some 1" by simp
  have m: "min (3 - trg_size ?l1) 1 \<le> 0"
    by (simp add: observed_layer_def new_layer_def)
  from C6_no_deletion_resets[OF init cnt st m, of stable_argsort Map.empty]
  have "prune stable_argsort (observed_layer 3 3 1) Map.empty = Inr (reset ?l1, Map.empty) \<and>
     pruned_neurons (reset ?l1) = [] \<and> dists (reset ?l1) = None \<and>
     activities (reset ?l1) = None \<and> n_obs (reset ?l1) = 0 \<and> obs (reset ?l1) = []"
    by (simp add: observed_layer_def new_layer_def)
  with init show ?thesis by blast
qed

subsection \<open>C7: the distance accumulator, in exact arithmetic only\<close>

text \<open>
  The distance matrix is computed in floating point: the three roundings of
  \<open>-2 * dot + norm_i + norm_j\<close> are taken in a different order for the entries
  \<open>(i, j)\<close> and \<open>(j, i)\<close>, and the rounded sum can fall below zero for nearly equal
  rows. Symmetry and non-negativity are facts of the arithmetic of the reals, which
  the floats do not share, so C7 has no theorem here. What holds of the model, where
  the entries are reals, is that every accumulated matrix, and its quotient by a
  non-negative count, is symmetric and non-negative.
\<close>

lemma exact_accumulator_symmetric_nonneg:
  assumes "register_all batches l = Inr l'" "batches \<noteq> []" "dists l = None" "0 \<le> c"
  shows "\<exists>d. dists l' = Some d \<and> sym_nonneg d \<and> sym_nonneg (map (map (\<lambda>v. v / c)) d)"
proof -
  from assms(3) have "case dists l of None \<Rightarrow> True | Some d \<Rightarrow> sym_nonneg d" by simp
  from register_all_sym_nonneg[OF assms(1,2) this] obtain d where
    "dists l' = Some d" "sym_nonneg d" by blast
  with sym_nonneg_normalised[OF _ assms(4)] show ?thesis by blast
qed

subsection \<open>C8: the lines of the layout file\<close>

text \<open>
  C8: the line \<open>decgru in W_dec 0 0.25\<close> gives the connection with direction \<open>in\<close>,
  matrix \<open>W_dec\<close>, axis 0 and start offset 0.25 for the layer \<open>decgru\<close>; a line of four
  fields whose axis is an integer gives a connection with start offset 0; a line that
  is not blank and has neither four nor five fields gives no connection and no error:
  the loop logs a warning and goes on with the next line, the dictionary unchanged.
\<close>

theorem C8_layout_lines:
  "parse_layout_line ''decgru in W_dec 0 0.25'' =
     Inr (Conn_line ''decgru''
           \<lparr>direction = ''in'', mat_name = ''W_dec'', dim = 0, start_idx = 0.25\<rparr>) \<and>
   (py_strip line \<noteq> [] \<and> py_split (py_strip line) = [f0, f1, f2, f3] \<and> py_int f3 = Inr d \<longrightarrow>
      parse_layout_line line =
        Inr (Conn_line f0 \<lparr>direction = f1, mat_name = f2, dim = d, start_idx = 0\<rparr>)) \<and>
   (py_strip line \<noteq> [] \<and> length (py_split (py_strip line)) \<noteq> 4 \<and>
    length (py_split (py_strip line)) \<noteq> 5 \<longrightarrow>
      parse_layout_line line = Inr Syntax_warning \<and>
      read_layout (line # lines) conns warnings = read_layout lines conns (warnings + 1))"
proof (intro conjI impI)
  show "parse_layout_line ''decgru in W_dec 0 0.25'' =
     Inr (Conn_line ''decgru''
           \<lparr>direction = ''in'', mat_name = ''W_dec'', dim = 0, start_idx = 0.25\<rparr>)"
    by (simp add: parse_layout_line_def py_split_def py_strip_def is_space_def
        py_int_def unsigned_int_def digit_val_def py_float_def unsigned_float_def)
next
  assume "py_strip line \<noteq> [] \<and> py_split (py_strip line) = [f0, f1, f2, f3] \<and> py_int f3 = Inr d"
  then show "parse_layout_line line =
        Inr (Conn_line f0 \<lparr>direction = f1, mat_name = f2, dim = d, start_idx = 0\<rparr>)"
    by (simp add: parse_layout_line_def)
next
  assume a: "py_strip line \<noteq> [] \<and> length (py_split (py_strip line)) \<noteq> 4 \<and>
    length (py_split (py_strip line)) \<noteq> 5"
  then show w: "parse_layout_line line = Inr Syntax_warning"
    by (simp add: parse_layout_line_def)
  then show "read_layout (line # lines) conns warnings = read_layout lines conns (warnings + 1)"
    by simp
qed

theorem C8_layout_lines_witness:
  "parse_layout_line ''encfwdgru out W_emb 1'' =
     Inr (Conn_line ''encfwdgru''
           \<lparr>direction = ''out'', mat_name = ''W_emb'', dim = 1, start_idx = 0\<rparr>) \<and>
   parse_layout_line ''decgru in W_dec'' = Inr Syntax_warning \<and>
   read_layout [''decgru in W_dec''] Map.empty 0 = Inr (Map.empty, 1)"
proof -
  have a: "py_strip ''encfwdgru out W_emb 1'' \<noteq> [] \<and>
      py_split (py_strip ''encfwdgru out W_emb 1'') = [''encfwdgru'', ''out'', ''W_emb'', ''1''] \<and>
      py_int ''1'' = Inr 1"
    by (simp add: py_split_def py_strip_def is_space_def py_int_def unsigned_int_def
        digit_val_def)
  have b: "py_strip ''decgru in W_dec'' \<noteq> [] \<and>
      length (py_split (py_strip ''decgru in W_dec'')) \<noteq> 4 \<and>
      length (py_split (py_strip ''decgru in W_dec'')) \<noteq> 5"
    by (simp add: py_split_def py_strip_def is_space_def)
  from C8_layout_lines[of "''encfwdgru out W_emb 1''" "''encfwdgru''" "''out''" "''W_emb''"
      "''1''" 1] a
  have 1: "parse_layout_line ''encfwdgru out W_emb 1'' =
     Inr (Conn_line ''encfwdgru''
           \<lparr>direction = ''out'', mat_name = ''W_emb'', dim = 1, start_idx = 0\<rparr>)"
    by blast
  from C8_layout_lines[of "''decgru in W_dec''" _ _ _ _ _ "[]" Map.empty 0] b
  have 2: "parse_layout_line ''decgru in W_dec'' = Inr Syntax_warning"
    and 3: "read_layout [''decgru in W_dec''] Map.empty 0 = read_layout [] Map.empty (0 + 1)"
    by blast+
  from 1 2 3 show ?thesis by simp
qed

subsection \<open>C9: \<open>KenLMPredictor.is_equal\<close>\<close>

text \<open>
  C9: whatever the two states are, \<open>KenLMPredictor.is_equal\<close> raises \<open>NameError\<close> and
  returns no comparison: its body reads the name \<open>state\<close>, which is neither a parameter
  nor a name of the module nor (by assumption on the built-ins) a built-in.
\<close>

theorem C9_is_equal_raises_NameError:
  assumes "dom globals \<subseteq> set ngram_globals" "''state'' \<notin> dom builtins"
  shows "KenLM_is_equal globals builtins self state1 state2 = Inl NameError"
proof -
  have "''state'' \<notin> set ngram_globals" by (simp add: ngram_globals_def)
  with assms have "globals ''state'' = None" "builtins ''state'' = None" by auto
  then show ?thesis by (simp add: KenLM_is_equal_def lookup_name_def)
qed

theorem C9_is_equal_witness:
  "KenLM_is_equal [''kenlm'' \<mapsto> (0::nat)] [''len'' \<mapsto> 1] 2 3 3 = Inl NameError"
proof -
  have "dom [''kenlm'' \<mapsto> (0::nat)] \<subseteq> set ngram_globals"
    by (simp add: ngram_globals_def)
  moreover have "''state'' \<notin> dom [''len'' \<mapsto> (1::nat)]" by simp
  ultimately show ?thesis by (rule C9_is_equal_raises_NameError)
qed

subsection \<open>C10: the accumulators after a prune that deletes\<close>

text \<open>
  C10: after a \<open>prune\<close> that has pruned at least one neuron (with a positive number of
  observations), the accumulators are not reset: the distance matrix and the activity
  sums are the old ones divided by the observation count, the observation count and
  the stored observations are unchanged; and a following \<open>register_activities\<close> adds
  the sums of the new batch to these means and the size of the batch to the old count.
\<close>

theorem C10_accumulators_after_prune:
  assumes "prune argsort l ps = Inr (l', ps')" "pruned_neurons l' \<noteq> pruned_neurons l"
    "dists l = Some d" "activities l = Some a" "n_obs l \<noteq> 0"
  shows "dists l' = Some (map (map (\<lambda>v. v / n_obs l)) d) \<and>
         activities l' = Some (map (\<lambda>v. v / n_obs l) a) \<and>
         n_obs l' = n_obs l \<and> obs l' = obs l \<and>
         (register_activities batch l' = Inr l'' \<longrightarrow>
            dists l'' = Some (mat_add (map (map (\<lambda>v. v / n_obs l)) d)
                               (dists_sq_of (transpose_np batch))) \<and>
            activities l'' = Some (vec_add (map (\<lambda>v. v / n_obs l) a)
                                    (map sq_norm (transpose_np batch))) \<and>
            n_obs l'' = n_obs l + real (length batch) \<and>
            obs l'' = obs l @ [transpose_np batch])"
proof -
  from assms(1) obtain l1 where init: "prune_init l = Inr l1"
    by (auto simp: prune_def split: sum.splits)
  note fr = prune_init_frame[OF init]
  from assms(1) init obtain n where n: "n_to_delete_of l1 = Inr n"
    by (auto simp: prune_def split: sum.splits)
  have pos: "\<not> n \<le> 0"
  proof
    assume "n \<le> 0"
    with assms(1) init n have "l' = reset l1" by (simp add: prune_def)
    with fr assms(2) show False by (simp add: reset_def)
  qed
  with assms(1) init n have sel: "prune_select argsort n l1 ps = Inr (l', ps')"
    by (simp add: prune_def)
  from prune_select_Inr[OF sel] fr assms(3,4) obtain m td where
    scan: "prune_scan n (map (\<lambda>v. v / n_obs l1) a) (candidate_pairs argsort l1 a d m) []
       (normalised l1 a d) = (td, l')"
    by auto
  note sf = prune_scan_frame[OF scan]
  have 1: "dists l' = Some (map (map (\<lambda>v. v / n_obs l)) d)"
    and 2: "activities l' = Some (map (\<lambda>v. v / n_obs l) a)"
    and 3: "n_obs l' = n_obs l" and 4: "obs l' = obs l"
    using sf fr by (simp_all add: normalised_fields)
  have 5: "dists l'' = Some (mat_add (map (map (\<lambda>v. v / n_obs l)) d)
                               (dists_sq_of (transpose_np batch))) \<and>
            activities l'' = Some (vec_add (map (\<lambda>v. v / n_obs l) a)
                                    (map sq_norm (transpose_np batch))) \<and>
            n_obs l'' = n_obs l + real (length batch) \<and>
            obs l'' = obs l @ [transpose_np batch]"
    if "register_activities batch l' = Inr l''"
    using that 1 2 3 4
    by (auto simp: register_activities_def Let_def split: if_splits)
  from 1 2 3 4 5 show ?thesis by blast
qed

theorem C10_accumulators_witness:
  "dists example_pruned = Some [[0, 0, 1], [0, 0, 1], [1, 1, 0]] \<and>
   activities example_pruned = Some [5 / 2, 5 / 2, 1 / 2] \<and>
   n_obs example_pruned = 2 \<and> obs example_pruned = obs example_layer \<and>
   (\<exists>l''. register_activities example_batch example_pruned = Inr l'' \<and>
      dists l'' = Some [[0, 0, 3], [0, 0, 3], [3, 3, 0]] \<and>
      activities l'' = Some [15 / 2, 15 / 2, 3 / 2] \<and> n_obs l'' = 4)"
proof -
  have h: "pruned_neurons example_pruned \<noteq> pruned_neurons example_layer"
    "dists example_layer = Some [[0, 0, 2], [0, 0, 2], [2, 2, 0]]"
    "activities example_layer = Some [5, 5, 1]" "n_obs example_layer \<noteq> 0"
    "n_obs example_layer = 2"
    by (simp_all add: example_pruned_def example_layer_def example_new_def new_layer_def)
  obtain l'' where r: "register_activities example_batch example_pruned = Inr l''"
    by (simp add: register_activities_def example_batch_def example_pruned_def
        example_layer_def example_new_def new_layer_def transpose_np_def dists_sq_of_def
        same_shape_def upt_rec Let_def)
  have x: "transpose_np [[1, 1, 0], [2, 2, 1]] = [[1, 2], [1, 2], [0, 1]]"
    by (simp add: transpose_np_def upt_rec)
  from C10_accumulators_after_prune[OF example_prune h(1,2,3,4), of example_batch l''] r
  have "dists example_pruned = Some [[0, 0, 1], [0, 0, 1], [1, 1, 0]] \<and>
   activities example_pruned = Some [5 / 2, 5 / 2, 1 / 2] \<and>
   n_obs example_pruned = 2 \<and> obs example_pruned = obs example_layer \<and>
      dists l'' = Some [[0, 0, 3], [0, 0, 3], [3, 3, 0]] \<and>
      activities l'' = Some [15 / 2, 15 / 2, 3 / 2] \<and> n_obs l'' = 4"
    by (simp add: h(5) x example_batch_def mat_add_def vec_add_def dists_sq_of_def dot_def
        sq_norm_def)
  with r show ?thesis by blast
qed

end
